theory Spec2Isabelle
  imports Main "HOL-Library.Sublist"
begin

section \<open>Text primitives of the converter\<close>

text \<open>
  The converter (\<^verbatim>\<open>dataview_converter.py\<close>) works on Python \<^verbatim>\<open>str\<close> values. They are
  modelled as \<^typ>\<open>string\<close>, and the character classes used by \<^verbatim>\<open>str.strip\<close>,
  \<^verbatim>\<open>str.splitlines\<close>, \<^verbatim>\<open>str.upper\<close>, \<^verbatim>\<open>str.lower\<close> and by the regular expressions
  (\<^verbatim>\<open>\b\<close>, \<^verbatim>\<open>re.IGNORECASE\<close>) are those of ASCII text: a character outside ASCII is
  neither white space nor a letter nor a word character here.
\<close>

definition is_space :: "char \<Rightarrow> bool" where
  "is_space c = (c \<in> set [CHR 0x09, CHR 0x0A, CHR 0x0B, CHR 0x0C, CHR 0x0D,
                           CHR 0x1C, CHR 0x1D, CHR 0x1E, CHR 0x1F, CHR 0x20])"

definition is_linebreak :: "char \<Rightarrow> bool" where
  "is_linebreak c = (c \<in> set [CHR 0x0A, CHR 0x0B, CHR 0x0C, CHR 0x0D, CHR 0x1C, CHR 0x1D, CHR 0x1E])"

definition to_upper :: "char \<Rightarrow> char" where
  "to_upper c = (case map_of (zip ''abcdefghijklmnopqrstuvwxyz'' ''ABCDEFGHIJKLMNOPQRSTUVWXYZ'') c of
                   Some u \<Rightarrow> u | None \<Rightarrow> c)"

definition to_lower :: "char \<Rightarrow> char" where
  "to_lower c = (case map_of (zip ''ABCDEFGHIJKLMNOPQRSTUVWXYZ'' ''abcdefghijklmnopqrstuvwxyz'') c of
                   Some u \<Rightarrow> u | None \<Rightarrow> c)"

definition upper :: "string \<Rightarrow> string" where
  "upper s = map to_upper s"

definition lower :: "string \<Rightarrow> string" where
  "lower s = map to_lower s"

definition is_word :: "char \<Rightarrow> bool" where
  "is_word c = (c \<in> set ''abcdefghijklmnopqrstuvwxyzABCDEFGHIJKLMNOPQRSTUVWXYZ0123456789_'')"

text \<open>\<^verbatim>\<open>s.strip()\<close> and \<^verbatim>\<open>s.strip(chars)\<close>.\<close>

definition strip_by :: "(char \<Rightarrow> bool) \<Rightarrow> string \<Rightarrow> string" where
  "strip_by P s = rev (dropWhile P (rev (dropWhile P s)))"

definition strip :: "string \<Rightarrow> string" where
  "strip s = strip_by is_space s"

definition strip_chars :: "string \<Rightarrow> string \<Rightarrow> string" where
  "strip_chars chars s = strip_by (\<lambda>c. c \<in> set chars) s"

definition dquote :: char where "dquote = CHR 0x22"
definition squote :: char where "squote = CHR 0x27"
definition bslash :: char where "bslash = CHR 0x5C"
definition pipe :: char where "pipe = CHR 0x7C"
definition nl :: char where "nl = CHR 0x0A"

text \<open>\<^verbatim>\<open>x.strip().strip('"').strip("'")\<close>, as written in both \<^verbatim>\<open>_gather_files\<close> and
  \<^verbatim>\<open>_process_block\<close>.\<close>

definition strip_quotes :: "string \<Rightarrow> string" where
  "strip_quotes s = strip_chars [squote] (strip_chars [dquote] (strip s))"

text \<open>\<^verbatim>\<open>s.splitlines()\<close>: the accumulator holds the current line, reversed.\<close>

fun splitlines_from :: "string \<Rightarrow> string \<Rightarrow> string list" where
  "splitlines_from cur [] = (if cur = [] then [] else [rev cur])"
| "splitlines_from cur [c] = (if is_linebreak c then [rev cur] else [rev (c # cur)])"
| "splitlines_from cur (c # d # cs) =
     (if c = CHR 0x0D \<and> d = CHR 0x0A then rev cur # splitlines_from [] cs
      else if is_linebreak c then rev cur # splitlines_from [] (d # cs)
      else splitlines_from (c # cur) (d # cs))"

definition splitlines :: "string \<Rightarrow> string list" where
  "splitlines s = splitlines_from [] s"

text \<open>The text before and after the first occurrence of a non-empty separator:
  \<^verbatim>\<open>s.split(sep, 1)\<close> when \<^verbatim>\<open>sep in s\<close>, and the lazy \<^verbatim>\<open>(.*?)sep\<close> of a regular
  expression.\<close>

fun split_first :: "string \<Rightarrow> string \<Rightarrow> (string \<times> string) option" where
  "split_first sep [] = None"
| "split_first sep (c # cs) =
     (if prefix sep (c # cs) then Some ([], drop (length sep) (c # cs))
      else (case split_first sep cs of
              None \<Rightarrow> None
            | Some (a, b) \<Rightarrow> Some (c # a, b)))"

text \<open>\<^verbatim>\<open>s.split(",")\<close> for a one-character separator.\<close>

fun split_on :: "char \<Rightarrow> string \<Rightarrow> string list" where
  "split_on d [] = [[]]"
| "split_on d (c # cs) =
     (if c = d then [] # split_on d cs
      else (case split_on d cs of
              [] \<Rightarrow> [[c]]
            | x # xs \<Rightarrow> (c # x) # xs))"

text \<open>\<^verbatim>\<open>sep.join(xs)\<close>.\<close>

fun join_str :: "string \<Rightarrow> string list \<Rightarrow> string" where
  "join_str sep [] = []"
| "join_str sep [x] = x"
| "join_str sep (x # y # ys) = x @ sep @ join_str sep (y # ys)"

text \<open>\<^verbatim>\<open>val.replace("|", "\\|")\<close>.\<close>

definition replace_pipe :: "string \<Rightarrow> string" where
  "replace_pipe s = concat (map (\<lambda>c. if c = pipe then [bslash, pipe] else [c]) s)"

text \<open>
  \<^verbatim>\<open>re.split(r"\bW1\b|\bW2\b", s, flags=re.IGNORECASE)\<close> for keywords made of word
  characters. \<open>word_at w pw s\<close> says that the alternative \<^verbatim>\<open>\bw\b\<close> matches at the head of
  \<open>s\<close>, where \<open>pw\<close> tells whether the character before \<open>s\<close> is a word character; the
  keywords are given in upper case.
\<close>

definition word_at :: "string \<Rightarrow> bool \<Rightarrow> string \<Rightarrow> bool" where
  "word_at w pw s =
     (\<not> pw \<and> upper (take (length w) s) = w \<and>
      (case drop (length w) s of [] \<Rightarrow> True | c # _ \<Rightarrow> \<not> is_word c))"

function re_split :: "string list \<Rightarrow> bool \<Rightarrow> string \<Rightarrow> string \<Rightarrow> string list" where
  "re_split ws pw acc [] = [rev acc]"
| "re_split ws pw acc (c # cs) =
     (case find (\<lambda>w. word_at w pw (c # cs)) ws of
        Some w \<Rightarrow> rev acc # re_split ws (is_word (last (c # take (length w - 1) cs))) [] (drop (length w - 1) cs)
      | None \<Rightarrow> re_split ws (is_word c) (c # acc) cs)"
  by pat_completeness auto
termination
  by (relation "measure (\<lambda>(ws, pw, acc, s). length s)") auto

section \<open>Values produced by the YAML loader\<close>

text \<open>
  \<^verbatim>\<open>yaml.safe_load\<close> is a library outside the repository: it is a parameter \<open>Y\<close> of the
  model, \<open>None\<close> standing for a raised exception. Its results are Python objects;
  \<open>PAtom\<close> stands for the scalars without a constructor of their own (floats, dates),
  carrying their truth value. \<^verbatim>\<open>str()\<close> of an object that is not a string is the
  parameter \<open>S\<close>.
\<close>

datatype pyval =
    PNone
  | PBool bool
  | PInt int
  | PStr string
  | PList "pyval list"
  | PDict "(pyval \<times> pyval) list"
  | PAtom bool nat

datatype error =
    FileNotFoundError
  | IsADirectoryError
  | SameFileError
  | ValueError
  | TypeError
  | AttributeError
  | KeyError

fun py_truthy :: "pyval \<Rightarrow> bool" where
  "py_truthy PNone = False"
| "py_truthy (PBool b) = b"
| "py_truthy (PInt i) = (i \<noteq> 0)"
| "py_truthy (PStr s) = (s \<noteq> [])"
| "py_truthy (PList xs) = (xs \<noteq> [])"
| "py_truthy (PDict d) = (d \<noteq> [])"
| "py_truthy (PAtom b n) = b"

definition py_str :: "(pyval \<Rightarrow> string) \<Rightarrow> pyval \<Rightarrow> string" where
  "py_str S v = (case v of PStr s \<Rightarrow> s | _ \<Rightarrow> S v)"

definition is_substring :: "string \<Rightarrow> string \<Rightarrow> bool" where
  "is_substring a b = (\<exists>t \<in> set (suffixes b). prefix a t)"

text \<open>\<^verbatim>\<open>key in obj\<close>, \<^verbatim>\<open>obj.get(key)\<close> and \<^verbatim>\<open>obj[key]\<close> for a string key.\<close>

fun py_contains :: "pyval \<Rightarrow> string \<Rightarrow> error + bool" where
  "py_contains (PDict d) k = Inr (PStr k \<in> fst ` set d)"
| "py_contains (PStr s) k = Inr (is_substring k s)"
| "py_contains (PList xs) k = Inr (PStr k \<in> set xs)"
| "py_contains _ k = Inl TypeError"

fun py_get :: "pyval \<Rightarrow> string \<Rightarrow> error + pyval" where
  "py_get (PDict d) k = Inr (case map_of d (PStr k) of Some v \<Rightarrow> v | None \<Rightarrow> PNone)"
| "py_get _ k = Inl AttributeError"

fun py_getitem :: "pyval \<Rightarrow> string \<Rightarrow> error + pyval" where
  "py_getitem (PDict d) k = (case map_of d (PStr k) of Some v \<Rightarrow> Inr v | None \<Rightarrow> Inl KeyError)"
| "py_getitem _ k = Inl TypeError"

section \<open>Paths and the file system\<close>

text \<open>
  A path is the list of its components below the file-system root, as
  \<^verbatim>\<open>pathlib\<close> keeps them: \<^verbatim>\<open>.\<close> and empty components are dropped when a string is
  parsed, \<^verbatim>\<open>..\<close> is kept and resolved by the file system. The file system is the tree of
  the root directory; symbolic links are not modelled.
\<close>

type_synonym path = "string list"

datatype node = File string | Dir "(string \<times> node) list"

definition path_parts :: "string \<Rightarrow> path" where
  "path_parts s = filter (\<lambda>c. c \<noteq> [] \<and> c \<noteq> ''.'') (split_on CHR ''/'' s)"

text \<open>\<^verbatim>\<open>base / s\<close>: an absolute \<open>s\<close> replaces the base.\<close>

definition path_join :: "path \<Rightarrow> string \<Rightarrow> path" where
  "path_join base s = (if prefix ''/'' s then path_parts s else base @ path_parts s)"

definition path_name :: "path \<Rightarrow> string" where
  "path_name p = (if p = [] then [] else last p)"

text \<open>\<^verbatim>\<open>PurePath.stem\<close>: the final component without its last suffix; a dot in first or
  last position starts no suffix.\<close>

definition name_stem :: "string \<Rightarrow> string" where
  "name_stem n =
     (case split_first ''.'' (rev n) of
        None \<Rightarrow> n
      | Some (ext_rev, stem_rev) \<Rightarrow> if ext_rev = [] \<or> stem_rev = [] then n else rev stem_rev)"

definition stem :: "path \<Rightarrow> string" where
  "stem p = name_stem (path_name p)"

text \<open>\<^verbatim>\<open>p.relative_to(root)\<close> compares components and raises \<^verbatim>\<open>ValueError\<close> when \<open>root\<close>
  is no prefix; \<^verbatim>\<open>str\<close> of the empty relative path is \<^verbatim>\<open>.\<close>.\<close>

definition relative_to :: "path \<Rightarrow> path \<Rightarrow> error + path" where
  "relative_to p root = (if prefix root p then Inr (drop (length root) p) else Inl ValueError)"

definition path_str :: "path \<Rightarrow> string" where
  "path_str r = (if r = [] then ''.'' else join_str ''/'' r)"

text \<open>\<^verbatim>\<open>fp.with_suffix(fp.suffix + ".bak")\<close>: the name with \<^verbatim>\<open>.bak\<close> appended; a path
  without a name raises \<^verbatim>\<open>ValueError\<close>.\<close>

definition bak_path :: "path \<Rightarrow> error + path" where
  "bak_path p = (if p = [] then Inl ValueError else Inr (butlast p @ [last p @ ''.bak'']))"

fun descend :: "node \<Rightarrow> path \<Rightarrow> node option" where
  "descend n [] = Some n"
| "descend (File s) (c # cs) = None"
| "descend (Dir es) (c # cs) = (case map_of es c of None \<Rightarrow> None | Some m \<Rightarrow> descend m cs)"

text \<open>Resolution of a path by the operating system: every component is taken from a
  directory, and \<^verbatim>\<open>..\<close> goes to the parent (the root is its own parent). The second
  argument is the resolved path so far.\<close>

fun canon :: "node \<Rightarrow> path \<Rightarrow> path \<Rightarrow> path option" where
  "canon fs cur [] = Some cur"
| "canon fs cur (c # cs) =
     (case descend fs cur of
        Some (Dir es) \<Rightarrow> canon fs (if c = ''..'' then butlast cur else cur @ [c]) cs
      | _ \<Rightarrow> None)"

definition lookup :: "node \<Rightarrow> path \<Rightarrow> node option" where
  "lookup fs p = (case canon fs [] p of None \<Rightarrow> None | Some q \<Rightarrow> descend fs q)"

definition exists :: "node \<Rightarrow> path \<Rightarrow> bool" where
  "exists fs p = (lookup fs p \<noteq> None)"

definition is_dir :: "node \<Rightarrow> path \<Rightarrow> bool" where
  "is_dir fs p = (case lookup fs p of Some (Dir es) \<Rightarrow> True | _ \<Rightarrow> False)"

text \<open>\<^verbatim>\<open>_read_file\<close>: the files are taken to hold valid UTF-8; a path that does not
  resolve raises \<^verbatim>\<open>FileNotFoundError\<close> here also when the cause is a file used as a
  directory.\<close>

definition read_file :: "node \<Rightarrow> path \<Rightarrow> error + string" where
  "read_file fs p =
     (case lookup fs p of
        None \<Rightarrow> Inl FileNotFoundError
      | Some (Dir es) \<Rightarrow> Inl IsADirectoryError
      | Some (File s) \<Rightarrow> Inr s)"

text \<open>Replacing, or creating in an existing directory, the node at a resolved path.\<close>

fun put :: "node \<Rightarrow> path \<Rightarrow> node \<Rightarrow> node" where
  "put n [] new = new"
| "put (File s) (c # cs) new = File s"
| "put (Dir es) (c # cs) new =
     (if c \<in> fst ` set es
      then Dir (map (\<lambda>e. if fst e = c then (c, put (snd e) cs new) else e) es)
      else if cs = [] then Dir (es @ [(c, new)]) else Dir es)"

text \<open>\<^verbatim>\<open>_write_file\<close>.\<close>

definition write_file :: "node \<Rightarrow> path \<Rightarrow> string \<Rightarrow> error + node" where
  "write_file fs p content =
     (case canon fs [] p of
        None \<Rightarrow> Inl FileNotFoundError
      | Some q \<Rightarrow>
          (case descend fs q of
             Some (Dir es) \<Rightarrow> Inl IsADirectoryError
           | _ \<Rightarrow> Inr (put fs q (File content))))"

text \<open>\<^verbatim>\<open>shutil.copy2(src, dst)\<close>: a destination that is a directory receives the file
  under the source's name; copying a file onto itself raises.\<close>

definition copy2 :: "node \<Rightarrow> path \<Rightarrow> path \<Rightarrow> error + node" where
  "copy2 fs src dst =
     (let dst' = (if is_dir fs dst then dst @ [path_name src] else dst) in
      if exists fs dst' \<and> canon fs [] src = canon fs [] dst' then Inl SameFileError
      else (case read_file fs src of
              Inl e \<Rightarrow> Inl e
            | Inr content \<Rightarrow> write_file fs dst' content))"

text \<open>\<^verbatim>\<open>base.rglob("*.md")\<close>: in every directory below the base, the base included, the
  entries whose name ends in \<^verbatim>\<open>.md\<close> (files or directories), a directory's own entries
  before those of its subdirectories. A base that is no directory yields nothing.\<close>

definition is_md :: "string \<Rightarrow> bool" where
  "is_md n = suffix ''.md'' n"

fun walk_md :: "node \<Rightarrow> path list" where
  "walk_md (File s) = []"
| "walk_md (Dir es) =
     map (\<lambda>e. [fst e]) (filter (\<lambda>e. is_md (fst e)) es) @
     concat (map (\<lambda>e. map ((#) (fst e)) (walk_md (snd e))) es)"

definition rglob_md :: "node \<Rightarrow> path \<Rightarrow> path list" where
  "rglob_md fs base =
     (case lookup fs base of
        Some (Dir es) \<Rightarrow> map ((@) base) (walk_md (Dir es))
      | _ \<Rightarrow> [])"

section \<open>Metadata of a document\<close>

text \<open>\<^verbatim>\<open>_extract_frontmatter\<close>: \<^verbatim>\<open>text.split("---", 2)\<close> has three parts when a second
  marker follows the leading one; the loader's result is returned unless it is falsy.\<close>

definition extract_frontmatter :: "(string \<Rightarrow> pyval option) \<Rightarrow> string \<Rightarrow> pyval" where
  "extract_frontmatter Y text =
     (if prefix ''---'' text then
        (case split_first ''---'' (drop 3 text) of
           Some (y, rest) \<Rightarrow>
             (case Y y of
                Some data \<Rightarrow> if py_truthy data then data else PDict []
              | None \<Rightarrow> PDict [])
         | None \<Rightarrow> PDict [])
      else PDict [])"

text \<open>\<^verbatim>\<open>_extract_inline_kv\<close>: a later line with the same key wins.\<close>

fun inline_kv_lines :: "(string \<rightharpoonup> string) \<Rightarrow> string list \<Rightarrow> (string \<rightharpoonup> string)" where
  "inline_kv_lines res [] = res"
| "inline_kv_lines res (line # lines) =
     (case split_first ''::'' line of
        Some (k, v) \<Rightarrow> inline_kv_lines (res(strip k \<mapsto> strip v)) lines
      | None \<Rightarrow> inline_kv_lines res lines)"

definition extract_inline_kv :: "string \<Rightarrow> (string \<rightharpoonup> string)" where
  "extract_inline_kv text = inline_kv_lines Map.empty (splitlines text)"

section \<open>Gathering the documents of a query\<close>

text \<open>The value of \<^verbatim>\<open>base\<close> in \<^verbatim>\<open>_gather_files\<close>; an empty \<^verbatim>\<open>from_path\<close> is falsy.\<close>

definition gather_base :: "node \<Rightarrow> path \<Rightarrow> string option \<Rightarrow> path" where
  "gather_base fs vault_root from_path =
     (case from_path of
        None \<Rightarrow> vault_root
      | Some fp0 \<Rightarrow>
          if fp0 = [] then vault_root
          else
            (let fp = strip_quotes fp0;
                 target = path_join vault_root fp
             in if exists fs target \<and> is_dir fs target then target
                else (let candidate = path_join vault_root fp
                      in if exists fs candidate then candidate else vault_root)))"

definition gather_files :: "node \<Rightarrow> path \<Rightarrow> string option \<Rightarrow> path list" where
  "gather_files fs vault_root from_path = rglob_md fs (gather_base fs vault_root from_path)"

section \<open>Resolving a column\<close>

definition value_for_column ::
  "(string \<Rightarrow> pyval option) \<Rightarrow> (pyval \<Rightarrow> string) \<Rightarrow> string \<Rightarrow> string \<Rightarrow> path \<Rightarrow> path \<Rightarrow> error + pyval" where
  "value_for_column Y S md_text col0 file_path vault_root =
     (let col = strip col0 in
      if lower col \<in> {''file.name'', ''file''} then Inr (PStr (stem file_path))
      else if lower col \<in> {''file.path'', ''path''} then
        (case relative_to file_path vault_root of
           Inl e \<Rightarrow> Inl e
         | Inr r \<Rightarrow> Inr (PStr (path_str r)))
      else
        (let fm = extract_frontmatter Y md_text;
             inline = extract_inline_kv md_text
         in case py_contains fm col of
              Inl e \<Rightarrow> Inl e
            | Inr True \<Rightarrow>
                (case py_get fm col of
                   Inl e \<Rightarrow> Inl e
                 | Inr v \<Rightarrow> Inr (PStr (py_str S v)))
            | Inr False \<Rightarrow>
                (case inline col of
                   Some v \<Rightarrow> Inr (PStr v)
                 | None \<Rightarrow>
                     if lower col \<in> {''title'', ''name''} then
                       (case py_contains fm ''title'' of
                          Inl e \<Rightarrow> Inl e
                        | Inr True \<Rightarrow> py_getitem fm ''title''
                        | Inr False \<Rightarrow> Inr (PStr (stem file_path)))
                     else Inr (PStr []))))"

section \<open>Rendering\<close>

definition render_row :: "string list \<Rightarrow> string" where
  "render_row cells = ''| '' @ join_str '' | '' cells @ '' |''"

definition render_md_table :: "string list \<Rightarrow> string list list \<Rightarrow> string" where
  "render_md_table headers rows =
     (let hdr = render_row headers;
          sep = render_row (replicate (length headers) ''---'');
          body = join_str [CHR 0x0A] (map render_row rows)
      in [CHR 0x0A] @ hdr @ [CHR 0x0A] @ sep @ [CHR 0x0A] @ body @ [CHR 0x0A])"

definition render_md_list :: "string list \<Rightarrow> string" where
  "render_md_list items = [CHR 0x0A] @ join_str [CHR 0x0A] (map (\<lambda>it. ''- '' @ it) items) @ [CHR 0x0A]"

section \<open>Processing one query block\<close>

text \<open>A loop that appends one result per element and stops at the first exception.\<close>

fun map_err :: "('a \<Rightarrow> error + 'b) \<Rightarrow> 'a list \<Rightarrow> error + 'b list" where
  "map_err f [] = Inr []"
| "map_err f (x # xs) =
     (case f x of
        Inl e \<Rightarrow> Inl e
      | Inr y \<Rightarrow> (case map_err f xs of Inl e \<Rightarrow> Inl e | Inr ys \<Rightarrow> Inr (y # ys)))"

text \<open>One cell: the resolved value with its pipes escaped; \<^verbatim>\<open>val.replace\<close> exists on
  strings only.\<close>

definition table_cell ::
  "(string \<Rightarrow> pyval option) \<Rightarrow> (pyval \<Rightarrow> string) \<Rightarrow> path \<Rightarrow> string \<Rightarrow> path \<Rightarrow> string \<Rightarrow> error + string" where
  "table_cell Y S vault ftext f col =
     (case value_for_column Y S ftext col f vault of
        Inl e \<Rightarrow> Inl e
      | Inr (PStr s) \<Rightarrow> Inr (replace_pipe s)
      | Inr _ \<Rightarrow> Inl AttributeError)"

definition table_row ::
  "(string \<Rightarrow> pyval option) \<Rightarrow> (pyval \<Rightarrow> string) \<Rightarrow> node \<Rightarrow> path \<Rightarrow> string list \<Rightarrow> path \<Rightarrow> error + string list" where
  "table_row Y S fs vault cols f =
     (case read_file fs f of
        Inl e \<Rightarrow> Inl e
      | Inr ftext \<Rightarrow> map_err (table_cell Y S vault ftext f) cols)"

definition list_item ::
  "(string \<Rightarrow> pyval option) \<Rightarrow> (pyval \<Rightarrow> string) \<Rightarrow> node \<Rightarrow> path \<Rightarrow> path \<Rightarrow> error + string" where
  "list_item Y S fs vault f =
     (case read_file fs f of
        Inl e \<Rightarrow> Inl e
      | Inr ftext \<Rightarrow>
          (case value_for_column Y S ftext ''title'' f vault of
             Inl e \<Rightarrow> Inl e
           | Inr t \<Rightarrow>
               (let title = (if py_truthy t then t else PStr (stem f)) in
                case relative_to f vault of
                  Inl e \<Rightarrow> Inl e
                | Inr rel \<Rightarrow> Inr (''['' @ py_str S title @ '']('' @ path_str rel @ '')''))))"

text \<open>The \<^verbatim>\<open>FROM\<close> argument of the first line: the text between the first and the second
  \<^verbatim>\<open>FROM\<close>, cut at the first \<^verbatim>\<open>WHERE\<close> or \<^verbatim>\<open>SORT\<close>, without its quotes.\<close>

definition from_of_parts :: "string list \<Rightarrow> string option" where
  "from_of_parts parts =
     (if length parts > 1
      then Some (strip_quotes (strip (hd (re_split [''WHERE'', ''SORT''] False [] (strip (parts ! 1))))))
      else None)"

definition table_cols :: "string list \<Rightarrow> string list" where
  "table_cols parts =
     (let cols_part = strip (drop 5 (strip (hd parts)))
      in filter (\<lambda>c. c \<noteq> []) (map strip (split_on CHR '','' cols_part)))"

text \<open>The lines written to the logger, by the event they report.\<close>

datatype log =
    Found nat path
  | ConvertedTable "string option" path
  | ConvertedList "string option" path
  | Skipped path
  | BackupMade path
  | Updated path

definition fence :: string where
  "fence = ''```''"

text \<open>
  \<^verbatim>\<open>_process_block\<close> for a match whose text is \<open>opening @ body @ fence\<close> and whose group 1
  is \<open>body\<close>. The result is the replacement, whether \<^verbatim>\<open>changed\<close> was set, and the lines
  logged.
\<close>

definition process_block ::
  "(string \<Rightarrow> pyval option) \<Rightarrow> (pyval \<Rightarrow> string) \<Rightarrow> node \<Rightarrow> path \<Rightarrow> path \<Rightarrow> string \<Rightarrow> string
     \<Rightarrow> error + (string \<times> bool \<times> log list)" where
  "process_block Y S fs vault fp opening body =
     (let whole = opening @ body @ fence;
          block = strip body;
          lines = splitlines block
      in case lines of
           [] \<Rightarrow> Inr (whole, False, [])
         | l0 # _ \<Rightarrow>
             (let first = strip l0 in
              if prefix ''TABLE'' (upper first) then
                (let parts = re_split [''FROM''] False [] first;
                     cols = table_cols parts;
                     from_path = from_of_parts parts;
                     files = gather_files fs vault from_path
                 in case map_err (table_row Y S fs vault cols) files of
                      Inl e \<Rightarrow> Inl e
                    | Inr rows \<Rightarrow>
                        if cols = [] then Inr (whole, False, [])
                        else Inr (render_md_table cols rows, True, [ConvertedTable from_path fp]))
              else if prefix ''LIST'' (upper first) then
                (let parts = re_split [''FROM''] False [] first;
                     from_path = from_of_parts parts;
                     files = gather_files fs vault from_path
                 in case map_err (list_item Y S fs vault) files of
                      Inl e \<Rightarrow> Inl e
                    | Inr items \<Rightarrow> Inr (render_md_list items, True, [ConvertedList from_path fp]))
              else Inr (whole, False, [Skipped fp])))"

section \<open>Substituting the blocks of a document\<close>

text \<open>
  The matches of \<^verbatim>\<open>DATABLOCK_RE\<close> in a text, from left to right and without overlap: at
  each position the opening marker, in any letter case, and the nearest closing fence
  after it. A character that starts no match is kept as it is.
\<close>

datatype seg = Gap char | Block string string

function find_blocks :: "string \<Rightarrow> seg list" where
  "find_blocks [] = []"
| "find_blocks (c # cs) =
     (if upper (take 11 (c # cs)) = ''```DATAVIEW'' then
        (case split_first fence (drop 10 cs) of
           Some (body, rest) \<Rightarrow> Block (take 11 (c # cs)) body # find_blocks rest
         | None \<Rightarrow> Gap c # find_blocks cs)
      else Gap c # find_blocks cs)"
  by pat_completeness auto
termination
proof (relation "measure length")
  fix c cs x2 x y
  assume found: "split_first fence (drop 10 cs) = Some x2" and pair: "(x, y) = x2"
  have shorter: "length b \<le> length s" if "split_first sep s = Some (a, b)" for sep s a b
    using that by (induction s arbitrary: a) (auto split: if_splits option.splits)
  from found pair have "length y \<le> length (drop 10 cs)"
    using shorter [of fence "drop 10 cs" x y] by simp
  then show "(y, c # cs) \<in> measure length" by simp
qed auto

text \<open>\<^verbatim>\<open>DATABLOCK_RE.sub(_process_block, text)\<close>, with the \<^verbatim>\<open>changed\<close> flag of the
  enclosing loop body and the logged lines.\<close>

fun sub_segs ::
  "(string \<Rightarrow> pyval option) \<Rightarrow> (pyval \<Rightarrow> string) \<Rightarrow> node \<Rightarrow> path \<Rightarrow> path \<Rightarrow> seg list
     \<Rightarrow> error + (string \<times> bool \<times> log list)" where
  "sub_segs Y S fs vault fp [] = Inr ([], False, [])"
| "sub_segs Y S fs vault fp (Gap c # segs) =
     (case sub_segs Y S fs vault fp segs of
        Inl e \<Rightarrow> Inl e
      | Inr (t, ch, l) \<Rightarrow> Inr (c # t, ch, l))"
| "sub_segs Y S fs vault fp (Block opening body # segs) =
     (case process_block Y S fs vault fp opening body of
        Inl e \<Rightarrow> Inl e
      | Inr (r, ch1, l1) \<Rightarrow>
          (case sub_segs Y S fs vault fp segs of
             Inl e \<Rightarrow> Inl e
           | Inr (t, ch, l) \<Rightarrow> Inr (r @ t, ch1 \<or> ch, l1 @ l)))"

definition sub_blocks ::
  "(string \<Rightarrow> pyval option) \<Rightarrow> (pyval \<Rightarrow> string) \<Rightarrow> node \<Rightarrow> path \<Rightarrow> path \<Rightarrow> string
     \<Rightarrow> error + (string \<times> bool \<times> log list)" where
  "sub_blocks Y S fs vault fp text = sub_segs Y S fs vault fp (find_blocks text)"

section \<open>The conversion of a vault\<close>

text \<open>
  The body of the loop over the documents. When an exception is raised the model gives
  the exception alone: the files written and the lines logged before it are not part of
  the result.
\<close>

definition backup_file :: "bool \<Rightarrow> node \<Rightarrow> path \<Rightarrow> error + (node \<times> log list)" where
  "backup_file backup fs fp =
     (if backup then
        (case bak_path fp of
           Inl e \<Rightarrow> Inl e
         | Inr bak \<Rightarrow>
             (case copy2 fs fp bak of
                Inl e \<Rightarrow> Inl e
              | Inr fs1 \<Rightarrow> Inr (fs1, [BackupMade bak])))
      else Inr (fs, []))"

definition convert_file ::
  "(string \<Rightarrow> pyval option) \<Rightarrow> (pyval \<Rightarrow> string) \<Rightarrow> path \<Rightarrow> bool \<Rightarrow> node \<Rightarrow> path
     \<Rightarrow> error + (node \<times> log list)" where
  "convert_file Y S vault backup fs fp =
     (case read_file fs fp of
        Inl e \<Rightarrow> Inl e
      | Inr text \<Rightarrow>
          (case sub_blocks Y S fs vault fp text of
             Inl e \<Rightarrow> Inl e
           | Inr (new_text, changed, l) \<Rightarrow>
               if changed then
                 (case backup_file backup fs fp of
                    Inl e \<Rightarrow> Inl e
                  | Inr (fs1, l1) \<Rightarrow>
                      (case write_file fs1 fp new_text of
                         Inl e \<Rightarrow> Inl e
                       | Inr fs2 \<Rightarrow> Inr (fs2, l @ l1 @ [Updated fp])))
               else Inr (fs, l)))"

fun convert_files ::
  "(string \<Rightarrow> pyval option) \<Rightarrow> (pyval \<Rightarrow> string) \<Rightarrow> path \<Rightarrow> bool \<Rightarrow> path list \<Rightarrow> node \<times> log list
     \<Rightarrow> error + (node \<times> log list)" where
  "convert_files Y S vault backup [] st = Inr st"
| "convert_files Y S vault backup (fp # fps) (fs, logs) =
     (case convert_file Y S vault backup fs fp of
        Inl e \<Rightarrow> Inl e
      | Inr (fs', l) \<Rightarrow> convert_files Y S vault backup fps (fs', logs @ l))"

text \<open>\<^verbatim>\<open>convert_dataview_in_vault\<close>; the returned message is constant and left out.\<close>

definition convert_dataview_in_vault ::
  "(string \<Rightarrow> pyval option) \<Rightarrow> (pyval \<Rightarrow> string) \<Rightarrow> node \<Rightarrow> path \<Rightarrow> bool \<Rightarrow> error + (node \<times> log list)" where
  "convert_dataview_in_vault Y S fs vault backup =
     (if \<not> exists fs vault then Inl FileNotFoundError
      else (let md_files = rglob_md fs vault
            in convert_files Y S vault backup md_files (fs, [Found (length md_files) vault])))"

section \<open>Notions used to state the properties\<close>

text \<open>The number of pipes of a line that are not escaped, that is, not directly after a
  backslash: a table row of \<open>n\<close> cells has \<open>n + 1\<close> of them. The flag tells whether the
  character before the text is a backslash.\<close>

fun bare_pipes :: "bool \<Rightarrow> string \<Rightarrow> nat" where
  "bare_pipes esc [] = 0"
| "bare_pipes esc (c # cs) = (if c = pipe \<and> \<not> esc then 1 else 0) + bare_pipes (c = bslash) cs"

section \<open>Substituting the blocks one at a time\<close>

text \<open>
  The order in which \<^verbatim>\<open>re.sub\<close> treats the matches is fixed. To state that the order
  does not matter, the spans of a document are kept in a work list and the blocks are
  substituted one at a time, by index, in any given order; an index that names no
  pending block changes nothing. This second substitution follows the specification's
  wording and is compared with \<open>sub_blocks\<close> above.
\<close>

datatype item = Todo seg | Done string

fun item_text :: "item \<Rightarrow> string" where
  "item_text (Todo (Gap c)) = [c]"
| "item_text (Todo (Block opening body)) = opening @ body @ fence"
| "item_text (Done r) = r"

definition substitute_at ::
  "(string \<Rightarrow> pyval option) \<Rightarrow> (pyval \<Rightarrow> string) \<Rightarrow> node \<Rightarrow> path \<Rightarrow> path \<Rightarrow> nat \<Rightarrow> item list
     \<Rightarrow> error + item list" where
  "substitute_at Y S fs vault fp i items =
     (if i < length items then
        (case items ! i of
           Todo (Block opening body) \<Rightarrow>
             (case process_block Y S fs vault fp opening body of
                Inl e \<Rightarrow> Inl e
              | Inr (r, ch, l) \<Rightarrow> Inr (items[i := Done r]))
         | _ \<Rightarrow> Inr items)
      else Inr items)"

fun substitute_in_order ::
  "(string \<Rightarrow> pyval option) \<Rightarrow> (pyval \<Rightarrow> string) \<Rightarrow> node \<Rightarrow> path \<Rightarrow> path \<Rightarrow> nat list \<Rightarrow> item list
     \<Rightarrow> error + item list" where
  "substitute_in_order Y S fs vault fp [] items = Inr items"
| "substitute_in_order Y S fs vault fp (i # order) items =
     (case substitute_at Y S fs vault fp i items of
        Inl e \<Rightarrow> Inl e
      | Inr items' \<Rightarrow> substitute_in_order Y S fs vault fp order items')"

definition is_block :: "seg \<Rightarrow> bool" where
  "is_block sg = (case sg of Block opening body \<Rightarrow> True | Gap c \<Rightarrow> False)"

definition seg_out ::
  "(string \<Rightarrow> pyval option) \<Rightarrow> (pyval \<Rightarrow> string) \<Rightarrow> node \<Rightarrow> path \<Rightarrow> path \<Rightarrow> seg \<Rightarrow> error + string" where
  "seg_out Y S fs vault fp sg =
     (case sg of
        Gap c \<Rightarrow> Inr [c]
      | Block opening body \<Rightarrow>
          (case process_block Y S fs vault fp opening body of
             Inl e \<Rightarrow> Inl e
           | Inr (r, ch, l) \<Rightarrow> Inr r))"

text \<open>A work list agrees with the segments of a document when each of its items is the
  pending segment or the replacement of that block.\<close>

definition item_ok ::
  "(string \<Rightarrow> pyval option) \<Rightarrow> (pyval \<Rightarrow> string) \<Rightarrow> node \<Rightarrow> path \<Rightarrow> path \<Rightarrow> seg \<Rightarrow> item \<Rightarrow> bool" where
  "item_ok Y S fs vault fp sg it =
     (it = Todo sg \<or> (is_block sg \<and> (\<exists>r. it = Done r \<and> seg_out Y S fs vault fp sg = Inr r)))"

text \<open>A well-formed file tree: the names of a directory are distinct, and none is empty,
  \<^verbatim>\<open>.\<close> or \<^verbatim>\<open>..\<close>, or holds a slash.\<close>

fun wf_node :: "node \<Rightarrow> bool" where
  "wf_node (File s) = True"
| "wf_node (Dir es) =
     (distinct (map fst es) \<and>
      (\<forall>e \<in> set es. fst e \<noteq> [] \<and> fst e \<noteq> ''.'' \<and> fst e \<noteq> ''..'' \<and> CHR ''/'' \<notin> set (fst e) \<and> wf_node (snd e)))"

text \<open>A text holds a marker when the opening of a query block, in any letter case,
  starts somewhere in it.\<close>

definition has_marker :: "string \<Rightarrow> bool" where
  "has_marker r = (\<exists>t \<in> set (suffixes r). upper (take 11 t) = ''```DATAVIEW'')"

section \<open>Example documents and vaults\<close>

text \<open>What the loader and \<^verbatim>\<open>str()\<close> give on the headers of the example documents: the
  mapping \<^verbatim>\<open>{"title": 123}\<close>, the string \<^verbatim>\<open>"Some text"\<close>, the list \<^verbatim>\<open>["title"]\<close>, and
  \<^verbatim>\<open>"123"\<close> for the integer.\<close>

definition yaml_stub :: "string \<Rightarrow> pyval option" where
  "yaml_stub y =
     (if y = ''\<newline>title: 123\<newline>'' then Some (PDict [(PStr ''title'', PInt 123)])
      else if y = ''\<newline>Some text\<newline>'' then Some (PStr ''Some text'')
      else None)"

definition yaml_list_stub :: "string \<Rightarrow> pyval option" where
  "yaml_list_stub y = (if y = ''\<newline>- title\<newline>'' then Some (PList [PStr ''title'']) else None)"

definition str_stub :: "pyval \<Rightarrow> string" where
  "str_stub v = (case v of PInt i \<Rightarrow> (if i = 123 then ''123'' else []) | _ \<Rightarrow> [])"

definition doc_title_123 :: string where
  "doc_title_123 = ''---\<newline>title: 123\<newline>---\<newline>status:: done\<newline>''"

definition vault_ab :: node where
  "vault_ab = Dir [(''v'', Dir [(''q.md'', File ''```dataview\<newline>TABLE file.name, tags\<newline>```''),
                                (''n.md'', File ''tags:: a|b'')])]"

definition doc_two_blocks :: string where
  "doc_two_blocks = ''```dataview LIST```-```dataview TABLE file```''"

definition vault_notes :: node where
  "vault_notes = Dir [(''v'', Dir [(''top.md'', File ''top''),
                                   (''notes'', Dir [(''d.md'', File ''```dataview LIST FROM notes```'')])])]"

text \<open>A vault in which the inline annotations of the note \<^verbatim>\<open>n.md\<close> hold the two halves
  of a query block (the note itself has no block: no fence follows its marker), and the
  same vault after one and after two conversions; and the first example vault after one
  conversion.\<close>

definition vault_fence :: node where
  "vault_fence = Dir [(''v'', Dir [(''q.md'', File ''```dataview\<newline>TABLE title, a\<newline>```''),
                                   (''n.md'', File ''a:: ```\<newline>title:: ```dataview LIST'')])]"

definition vault_fence_once :: node where
  "vault_fence_once =
     Dir [(''v'', Dir [(''q.md'', File ''\<newline>| title | a |\<newline>| --- | --- |\<newline>| q |  |\<newline>| ```dataview LIST | ``` |\<newline>''),
                       (''n.md'', File ''a:: ```\<newline>title:: ```dataview LIST'')])]"

definition vault_fence_twice :: node where
  "vault_fence_twice =
     Dir [(''v'', Dir [(''q.md'', File ''\<newline>| title | a |\<newline>| --- | --- |\<newline>| q |  |\<newline>| \<newline>- [q](q.md)\<newline>- [```dataview LIST](n.md)\<newline> |\<newline>''),
                       (''n.md'', File ''a:: ```\<newline>title:: ```dataview LIST'')])]"

definition vault_ab_once :: node where
  "vault_ab_once = Dir [(''v'', Dir [(''q.md'', File (''\<newline>| file.name | tags |\<newline>| --- | --- |\<newline>| q |  |\<newline>| n | a'' @ [bslash] @ ''|b |\<newline>'')),
                                     (''n.md'', File ''tags:: a|b'')])]"

section \<open>Auxiliary facts\<close>

lemma map_err_Inr_iff:
  "map_err f xs = Inr ys \<longleftrightarrow> length ys = length xs \<and> (\<forall>i < length xs. f (xs ! i) = Inr (ys ! i))"
proof (induction xs arbitrary: ys)
  case Nil
  then show ?case by auto
next
  case (Cons x xs)
  show ?case
  proof (cases ys)
    case Nil
    then show ?thesis by (auto split: sum.splits)
  next
    case (Cons y ys')
    then show ?thesis
      using Cons.IH [of ys'] by (auto split: sum.splits simp: nth_Cons split: nat.splits)
  qed
qed

lemma map_err_total:
  "(\<forall>x \<in> set xs. \<exists>y. f x = Inr y) \<Longrightarrow> \<exists>ys. map_err f xs = Inr ys"
  by (induction xs) (auto split: sum.splits)

lemma bare_pipes_cell:
  "bare_pipes esc (replace_pipe s @ CHR '' '' # rest) = bare_pipes False rest"
proof (induction s arbitrary: esc)
  case Nil
  then show ?case by (simp add: replace_pipe_def pipe_def bslash_def)
next
  case (Cons c s)
  have step: "replace_pipe (c # s) = (if c = pipe then [bslash, pipe] else [c]) @ replace_pipe s"
    by (simp add: replace_pipe_def)
  show ?case
    using Cons.IH by (simp add: step pipe_def bslash_def)
qed

lemma bare_pipes_join:
  "cells \<noteq> [] \<Longrightarrow>
   bare_pipes esc (join_str '' | '' (map replace_pipe cells) @ '' |'') = length cells"
proof (induction cells arbitrary: esc rule: induct_list012)
  case 1
  then show ?case by simp
next
  case (2 x)
  show ?case using bare_pipes_cell [of esc x "''|''"] by (simp add: pipe_def bslash_def)
next
  case (3 x y zs)
  have "bare_pipes esc (replace_pipe x @ CHR '' '' # (CHR ''|'' # CHR '' '' # join_str '' | '' (map replace_pipe (y # zs)) @ '' |''))
        = bare_pipes False (CHR ''|'' # CHR '' '' # join_str '' | '' (map replace_pipe (y # zs)) @ '' |'')"
    by (rule bare_pipes_cell)
  also have "\<dots> = 1 + bare_pipes False (join_str '' | '' (map replace_pipe (y # zs)) @ '' |'')"
    by (simp add: pipe_def bslash_def)
  also have "\<dots> = 1 + length (y # zs)"
    using "3.IH"(2) [of False] by simp
  finally show ?case by simp
qed

lemma bare_pipes_row:
  "cells \<noteq> [] \<Longrightarrow> bare_pipes False (render_row (map replace_pipe cells)) = length cells + 1"
  using bare_pipes_join [of cells False] by (simp add: render_row_def pipe_def bslash_def)

lemma table_cell_Inr:
  "table_cell Y S vault ftext f col = Inr c \<Longrightarrow>
   \<exists>s. value_for_column Y S ftext col f vault = Inr (PStr s) \<and> c = replace_pipe s"
  by (auto simp: table_cell_def split: sum.splits pyval.splits)

lemma table_row_Inr:
  assumes "table_row Y S fs vault cols f = Inr row"
  shows "\<exists>ftext. read_file fs f = Inr ftext \<and> length row = length cols \<and>
           (\<forall>j < length cols. \<exists>s. value_for_column Y S ftext (cols ! j) f vault = Inr (PStr s) \<and>
                                   row ! j = replace_pipe s)"
proof -
  from assms obtain ftext where rd: "read_file fs f = Inr ftext"
    and me: "map_err (table_cell Y S vault ftext f) cols = Inr row"
    by (auto simp: table_row_def split: sum.splits)
  from me have len: "length row = length cols"
    and cells: "\<forall>j < length cols. table_cell Y S vault ftext f (cols ! j) = Inr (row ! j)"
    by (simp_all add: map_err_Inr_iff)
  from cells have "\<forall>j < length cols. \<exists>s. value_for_column Y S ftext (cols ! j) f vault = Inr (PStr s) \<and>
                                   row ! j = replace_pipe s"
    using table_cell_Inr by blast
  with rd len show ?thesis by blast
qed

lemma table_row_pipes:
  assumes "table_row Y S fs vault cols f = Inr row" and "cols \<noteq> []"
  shows "bare_pipes False (render_row row) = length cols + 1"
proof -
  from table_row_Inr [OF assms(1)] have len: "length row = length cols"
    and esc: "\<forall>j < length row. \<exists>s. row ! j = replace_pipe s"
    by auto
  from esc have "\<forall>c \<in> set row. \<exists>s. c = replace_pipe s"
    by (auto simp: in_set_conv_nth)
  then obtain vals where row: "row = map replace_pipe vals"
    using ex_map_conv [of row replace_pipe] by auto
  with len assms(2) have "vals \<noteq> []" by auto
  then show ?thesis
    using bare_pipes_row [of vals] row len by simp
qed

lemma vault_ab_files:
  "gather_files vault_ab [''v''] (from_of_parts (re_split [''FROM''] False [] (strip ''TABLE FROM \".\"'')))
     = [[''v'', ''q.md''], [''v'', ''n.md'']]"
  by code_simp

section \<open>Properties of the conversion\<close>

text \<open>
  C2. A TABLE block with a non-empty column list is replaced by a table whose header row
  holds the column names in the requested order, whose separator row holds one
  \<^verbatim>\<open>---\<close> per column, and whose body holds one row per gathered document; every such
  row has one cell per column, the cell being the resolved value with each pipe replaced
  by an escaped pipe, so that the row's line has exactly one unescaped pipe more than
  there are columns.
\<close>

theorem table_block_shape:
  assumes lines: "splitlines (strip body) = l0 # ls"
    and kind: "prefix ''TABLE'' (upper (strip l0))"
    and cols: "cols = table_cols (re_split [''FROM''] False [] (strip l0))" "cols \<noteq> []"
    and files: "files = gather_files fs vault (from_of_parts (re_split [''FROM''] False [] (strip l0)))"
    and res: "process_block Y S fs vault fp opening body = Inr (out, ch, l)"
  shows "\<exists>rows. out = [nl] @ render_row cols @ [nl] @ render_row (replicate (length cols) ''---'') @ [nl]
                        @ join_str [nl] (map render_row rows) @ [nl]
           \<and> length rows = length files
           \<and> (\<forall>i < length files.
                 length (rows ! i) = length cols
               \<and> bare_pipes False (render_row (rows ! i)) = length cols + 1
               \<and> (\<exists>ftext. read_file fs (files ! i) = Inr ftext
                    \<and> (\<forall>j < length cols. \<exists>s.
                          value_for_column Y S ftext (cols ! j) (files ! i) vault = Inr (PStr s)
                        \<and> rows ! i ! j = replace_pipe s)))"
proof -
  from res lines kind cols files obtain rows
    where rows: "map_err (table_row Y S fs vault cols) files = Inr rows"
      and out: "out = render_md_table cols rows"
    by (auto simp: process_block_def Let_def split: sum.splits if_splits)
  from rows have len: "length rows = length files"
    and each: "\<forall>i < length files. table_row Y S fs vault cols (files ! i) = Inr (rows ! i)"
    by (simp_all add: map_err_Inr_iff)
  have "length (rows ! i) = length cols
        \<and> bare_pipes False (render_row (rows ! i)) = length cols + 1
        \<and> (\<exists>ftext. read_file fs (files ! i) = Inr ftext
             \<and> (\<forall>j < length cols. \<exists>s.
                   value_for_column Y S ftext (cols ! j) (files ! i) vault = Inr (PStr s)
                 \<and> rows ! i ! j = replace_pipe s))"
    if "i < length files" for i
  proof -
    from each that have r: "table_row Y S fs vault cols (files ! i) = Inr (rows ! i)" by simp
    show ?thesis
      using table_row_Inr [OF r] table_row_pipes [OF r cols(2)] by auto
  qed
  with len out show ?thesis
    by (intro exI [of _ rows]) (simp add: render_md_table_def nl_def)
qed

theorem table_block_shape_witness:
  "splitlines (strip ''\<newline>TABLE file.name, tags\<newline>'') = [''TABLE file.name, tags'']
   \<and> prefix ''TABLE'' (upper (strip ''TABLE file.name, tags''))
   \<and> [''file.name'', ''tags''] = table_cols (re_split [''FROM''] False [] (strip ''TABLE file.name, tags''))
   \<and> [''file.name'', ''tags''] \<noteq> []
   \<and> [[''v'', ''q.md''], [''v'', ''n.md'']]
        = gather_files vault_ab [''v''] (from_of_parts (re_split [''FROM''] False [] (strip ''TABLE file.name, tags'')))
   \<and> process_block (\<lambda>y. None) (\<lambda>v. []) vault_ab [''v''] [''v'', ''q.md''] ''```dataview'' ''\<newline>TABLE file.name, tags\<newline>''
        = Inr (''\<newline>| file.name | tags |\<newline>| --- | --- |\<newline>| q |  |\<newline>| n | a'' @ [bslash] @ ''|b |\<newline>'', True,
               [ConvertedTable None [''v'', ''q.md'']])
   \<and> (\<exists>rows. ''\<newline>| file.name | tags |\<newline>| --- | --- |\<newline>| q |  |\<newline>| n | a'' @ [bslash] @ ''|b |\<newline>''
                = [nl] @ render_row [''file.name'', ''tags''] @ [nl]
                  @ render_row (replicate (length [''file.name'', ''tags'']) ''---'') @ [nl]
                  @ join_str [nl] (map render_row rows) @ [nl]
           \<and> length rows = length [[''v'', ''q.md''], [''v'', ''n.md'']]
           \<and> (\<forall>i < length [[''v'', ''q.md''], [''v'', ''n.md'']].
                 length (rows ! i) = length [''file.name'', ''tags'']
               \<and> bare_pipes False (render_row (rows ! i)) = length [''file.name'', ''tags''] + 1
               \<and> (\<exists>ftext. read_file vault_ab ([[''v'', ''q.md''], [''v'', ''n.md'']] ! i) = Inr ftext
                    \<and> (\<forall>j < length [''file.name'', ''tags'']. \<exists>s.
                          value_for_column (\<lambda>y. None) (\<lambda>v. []) ftext ([''file.name'', ''tags''] ! j)
                             ([[''v'', ''q.md''], [''v'', ''n.md'']] ! i) [''v''] = Inr (PStr s)
                        \<and> rows ! i ! j = replace_pipe s))))"
proof -
  have a: "splitlines (strip ''\<newline>TABLE file.name, tags\<newline>'') = [''TABLE file.name, tags'']"
    by code_simp
  have b: "prefix ''TABLE'' (upper (strip ''TABLE file.name, tags''))"
    by code_simp
  have c: "[''file.name'', ''tags''] = table_cols (re_split [''FROM''] False [] (strip ''TABLE file.name, tags''))"
    by code_simp
  have d: "[''file.name'', ''tags''] \<noteq> []"
    by simp
  have e: "[[''v'', ''q.md''], [''v'', ''n.md'']]
        = gather_files vault_ab [''v''] (from_of_parts (re_split [''FROM''] False [] (strip ''TABLE file.name, tags'')))"
    by code_simp
  have f: "process_block (\<lambda>y. None) (\<lambda>v. []) vault_ab [''v''] [''v'', ''q.md''] ''```dataview'' ''\<newline>TABLE file.name, tags\<newline>''
        = Inr (''\<newline>| file.name | tags |\<newline>| --- | --- |\<newline>| q |  |\<newline>| n | a'' @ [bslash] @ ''|b |\<newline>'', True,
               [ConvertedTable None [''v'', ''q.md'']])"
    by code_simp
  from table_block_shape [OF a b c d e f] a b c d e f show ?thesis
    by blast
qed

text \<open>
  The precedence of the rules of column resolution, for a document whose header is
  absent, unreadable, falsy or a mapping \<open>d\<close>, and for the trimmed column name \<open>c\<close>:
  (1) \<^verbatim>\<open>file.name\<close> or \<^verbatim>\<open>file\<close>, in any letter case, gives the file name without its
  extension; (2) \<^verbatim>\<open>file.path\<close> or \<^verbatim>\<open>path\<close> gives the path relative to the vault root; (3)
  a key of the header equal to \<open>c\<close> gives the string form of its value; (4) a key of the
  inline annotations equal to \<open>c\<close> gives its value; (5) \<^verbatim>\<open>title\<close> or \<^verbatim>\<open>name\<close>, in any
  letter case, gives the header's \<^verbatim>\<open>title\<close> if there is one and the file name without its
  extension otherwise; (6) anything else gives the empty string.
\<close>

theorem column_precedence:
  assumes fm: "extract_frontmatter Y text = PDict d"
    and c: "c = strip col"
  shows "(lower c \<in> {''file.name'', ''file''} \<longrightarrow>
            value_for_column Y S text col fp vault = Inr (PStr (stem fp)))
       \<and> (lower c \<notin> {''file.name'', ''file''} \<and> lower c \<in> {''file.path'', ''path''} \<and> prefix vault fp \<longrightarrow>
            value_for_column Y S text col fp vault = Inr (PStr (path_str (drop (length vault) fp))))
       \<and> (lower c \<notin> {''file.name'', ''file'', ''file.path'', ''path''} \<and> map_of d (PStr c) = Some v \<longrightarrow>
            value_for_column Y S text col fp vault = Inr (PStr (py_str S v)))
       \<and> (lower c \<notin> {''file.name'', ''file'', ''file.path'', ''path''} \<and> map_of d (PStr c) = None
            \<and> extract_inline_kv text c = Some w \<longrightarrow>
            value_for_column Y S text col fp vault = Inr (PStr w))
       \<and> (lower c \<notin> {''file.name'', ''file'', ''file.path'', ''path''} \<and> map_of d (PStr c) = None
            \<and> extract_inline_kv text c = None \<and> lower c \<in> {''title'', ''name''} \<longrightarrow>
            value_for_column Y S text col fp vault =
              Inr (case map_of d (PStr ''title'') of Some t \<Rightarrow> t | None \<Rightarrow> PStr (stem fp)))
       \<and> (lower c \<notin> {''file.name'', ''file'', ''file.path'', ''path''} \<and> map_of d (PStr c) = None
            \<and> extract_inline_kv text c = None \<and> lower c \<notin> {''title'', ''name''} \<longrightarrow>
            value_for_column Y S text col fp vault = Inr (PStr []))"
proof -
  have mem: "(PStr k \<in> fst ` set d) = (map_of d (PStr k) \<noteq> None)" for k
    by (simp add: map_of_eq_None_iff)
  show ?thesis
    unfolding value_for_column_def Let_def c [symmetric] fm relative_to_def
    by (auto simp: mem split: option.splits)
qed

theorem column_precedence_witness:
  "extract_frontmatter yaml_stub doc_title_123 = PDict [(PStr ''title'', PInt 123)]
   \<and> lower (strip ''File.Name'') \<in> {''file.name'', ''file''}
   \<and> value_for_column yaml_stub str_stub doc_title_123 ''File.Name'' [''v'', ''a.md''] [''v''] = Inr (PStr ''a'')
   \<and> lower (strip '' path '') \<in> {''file.path'', ''path''} \<and> prefix [''v''] [''v'', ''a.md'']
   \<and> value_for_column yaml_stub str_stub doc_title_123 '' path '' [''v'', ''a.md''] [''v''] = Inr (PStr ''a.md'')
   \<and> map_of [(PStr ''title'', PInt 123)] (PStr (strip ''title'')) = Some (PInt 123)
   \<and> value_for_column yaml_stub str_stub doc_title_123 ''title'' [''v'', ''a.md''] [''v''] = Inr (PStr ''123'')
   \<and> extract_inline_kv doc_title_123 (strip ''status'') = Some ''done''
   \<and> value_for_column yaml_stub str_stub doc_title_123 ''status'' [''v'', ''a.md''] [''v''] = Inr (PStr ''done'')
   \<and> lower (strip ''Name'') \<in> {''title'', ''name''}
   \<and> value_for_column yaml_stub str_stub doc_title_123 ''Name'' [''v'', ''a.md''] [''v''] = Inr (PInt 123)
   \<and> lower (strip ''tags'') \<notin> {''title'', ''name''}
   \<and> value_for_column yaml_stub str_stub doc_title_123 ''tags'' [''v'', ''a.md''] [''v''] = Inr (PStr [])"
proof -
  let ?d = "[(PStr ''title'', PInt 123)]"
  let ?P = "{''file.name'', ''file'', ''file.path'', ''path''}"
  have fm: "extract_frontmatter yaml_stub doc_title_123 = PDict ?d"
    by code_simp
  note rule = column_precedence [OF fm refl, where S = str_stub and fp = "[''v'', ''a.md'']" and vault = "[''v'']"]
  have st: "stem [''v'', ''a.md''] = ''a''" by code_simp
  have a1: "lower (strip ''File.Name'') \<in> {''file.name'', ''file''}" by code_simp
  have c1': "value_for_column yaml_stub str_stub doc_title_123 ''File.Name'' [''v'', ''a.md''] [''v''] = Inr (PStr (stem [''v'', ''a.md'']))"
    by (rule rule [where col = "''File.Name''", THEN conjunct1, THEN mp]) (intro conjI a1)
  have c1: "value_for_column yaml_stub str_stub doc_title_123 ''File.Name'' [''v'', ''a.md''] [''v''] = Inr (PStr ''a'')"
    using c1' st by simp
  have ps: "path_str (drop (length [''v'']) [''v'', ''a.md'']) = ''a.md''" by code_simp
  have a2: "lower (strip '' path '') \<notin> {''file.name'', ''file''}" "lower (strip '' path '') \<in> {''file.path'', ''path''}"
    "prefix [''v''] [''v'', ''a.md'']"
    by code_simp+
  have c2': "value_for_column yaml_stub str_stub doc_title_123 '' path '' [''v'', ''a.md''] [''v''] = Inr (PStr (path_str (drop (length [''v'']) [''v'', ''a.md''])))"
    by (rule rule [where col = "'' path ''", THEN conjunct2, THEN conjunct1, THEN mp]) (intro conjI a2)
  have c2: "value_for_column yaml_stub str_stub doc_title_123 '' path '' [''v'', ''a.md''] [''v''] = Inr (PStr ''a.md'')"
    using c2' ps by simp
  have ps3: "py_str str_stub (PInt 123) = ''123''" by code_simp
  have a3: "lower (strip ''title'') \<notin> ?P" "map_of ?d (PStr (strip ''title'')) = Some (PInt 123)"
    by code_simp+
  have c3': "value_for_column yaml_stub str_stub doc_title_123 ''title'' [''v'', ''a.md''] [''v''] = Inr (PStr (py_str str_stub (PInt 123)))"
    by (rule rule [where col = "''title''" and v = "PInt 123", THEN conjunct2, THEN conjunct2, THEN conjunct1, THEN mp]) (intro conjI a3)
  have c3: "value_for_column yaml_stub str_stub doc_title_123 ''title'' [''v'', ''a.md''] [''v''] = Inr (PStr ''123'')"
    using c3' ps3 by simp
  have a4: "lower (strip ''status'') \<notin> ?P" "map_of ?d (PStr (strip ''status'')) = None"
    "extract_inline_kv doc_title_123 (strip ''status'') = Some ''done''"
    by code_simp+
  have c4: "value_for_column yaml_stub str_stub doc_title_123 ''status'' [''v'', ''a.md''] [''v''] = Inr (PStr ''done'')"
    by (rule rule [where col = "''status''" and w = "''done''", THEN conjunct2, THEN conjunct2, THEN conjunct2, THEN conjunct1, THEN mp]) (intro conjI a4)
  have ps5: "(case map_of ?d (PStr ''title'') of Some t \<Rightarrow> t | None \<Rightarrow> PStr (stem [''v'', ''a.md''])) = PInt 123"
    by code_simp
  have a5: "lower (strip ''Name'') \<notin> ?P" "map_of ?d (PStr (strip ''Name'')) = None"
    "extract_inline_kv doc_title_123 (strip ''Name'') = None" "lower (strip ''Name'') \<in> {''title'', ''name''}"
    by code_simp+
  have c5': "value_for_column yaml_stub str_stub doc_title_123 ''Name'' [''v'', ''a.md''] [''v'']
              = Inr (case map_of ?d (PStr ''title'') of Some t \<Rightarrow> t | None \<Rightarrow> PStr (stem [''v'', ''a.md'']))"
    by (rule rule [where col = "''Name''", THEN conjunct2, THEN conjunct2, THEN conjunct2, THEN conjunct2, THEN conjunct1, THEN mp]) (intro conjI a5)
  have c5: "value_for_column yaml_stub str_stub doc_title_123 ''Name'' [''v'', ''a.md''] [''v''] = Inr (PInt 123)"
    using c5' ps5 by simp
  have a6: "lower (strip ''tags'') \<notin> ?P" "map_of ?d (PStr (strip ''tags'')) = None"
    "extract_inline_kv doc_title_123 (strip ''tags'') = None" "lower (strip ''tags'') \<notin> {''title'', ''name''}"
    by code_simp+
  have c6: "value_for_column yaml_stub str_stub doc_title_123 ''tags'' [''v'', ''a.md''] [''v''] = Inr (PStr [])"
    by (rule rule [where col = "''tags''", THEN conjunct2, THEN conjunct2, THEN conjunct2, THEN conjunct2, THEN conjunct2, THEN mp]) (intro conjI a6)
  show ?thesis
    using fm a1 c1 a2(2,3) c2 a3(2) c3 a4(3) c4 a5(4) c5 a6(4) c6 by blast
qed

text \<open>
  C3. Column resolution is claimed to follow the six rules for every document text. A
  header need not be a mapping: for the document whose header is the plain text
  \<^verbatim>\<open>Some text\<close> the column \<^verbatim>\<open>e\<close>, which the rules send to the empty string, is found
  inside that text and the lookup raises; for the document whose header is the list
  \<^verbatim>\<open>- title\<close> the column \<^verbatim>\<open>Title\<close>, which the rules send to the file name without its
  extension, raises when the list is indexed by \<^verbatim>\<open>title\<close>.
\<close>

theorem precedence_non_mapping_failing_input:
  "extract_frontmatter yaml_stub ''---\<newline>Some text\<newline>---\<newline>'' = PStr ''Some text''
   \<and> value_for_column yaml_stub str_stub ''---\<newline>Some text\<newline>---\<newline>'' ''e'' [''v'', ''a.md''] [''v'']
         = Inl AttributeError
   \<and> extract_frontmatter yaml_list_stub ''---\<newline>- title\<newline>---\<newline>'' = PList [PStr ''title'']
   \<and> value_for_column yaml_list_stub str_stub ''---\<newline>- title\<newline>---\<newline>'' ''Title'' [''v'', ''a.md''] [''v'']
         = Inl TypeError"
  by code_simp

text \<open>
  C6. A TABLE block whose column list is empty after splitting at commas, trimming and
  dropping the empty entries is returned as it was and does not set the changed flag:
  this is the only result the block can give, and it is the result whenever every
  gathered document can be read.
\<close>

theorem table_without_columns_unchanged:
  assumes lines: "splitlines (strip body) = l0 # ls"
    and kind: "prefix ''TABLE'' (upper (strip l0))"
    and cols: "table_cols (re_split [''FROM''] False [] (strip l0)) = []"
  shows "(\<forall>r. process_block Y S fs vault fp opening body = Inr r \<longrightarrow> r = (opening @ body @ fence, False, []))
       \<and> ((\<forall>f \<in> set (gather_files fs vault (from_of_parts (re_split [''FROM''] False [] (strip l0)))).
              \<exists>s. read_file fs f = Inr s)
            \<longrightarrow> process_block Y S fs vault fp opening body = Inr (opening @ body @ fence, False, []))"
proof -
  let ?files = "gather_files fs vault (from_of_parts (re_split [''FROM''] False [] (strip l0)))"
  have pb: "process_block Y S fs vault fp opening body =
              (case map_err (table_row Y S fs vault []) ?files of
                 Inl e \<Rightarrow> Inl e
               | Inr rows \<Rightarrow> Inr (opening @ body @ fence, False, []))"
    using lines kind cols by (simp add: process_block_def Let_def split: sum.splits)
  have first: "\<forall>r. process_block Y S fs vault fp opening body = Inr r \<longrightarrow> r = (opening @ body @ fence, False, [])"
    unfolding pb by (auto split: sum.splits)
  have second: "process_block Y S fs vault fp opening body = Inr (opening @ body @ fence, False, [])"
    if rd: "\<forall>f \<in> set ?files. \<exists>s. read_file fs f = Inr s"
  proof -
    from rd have "\<forall>f \<in> set ?files. \<exists>row. table_row Y S fs vault [] f = Inr row"
      by (auto simp: table_row_def)
    then obtain rows where "map_err (table_row Y S fs vault []) ?files = Inr rows"
      using map_err_total by blast
    then show ?thesis unfolding pb by simp
  qed
  from first second show ?thesis by blast
qed

theorem table_without_columns_unchanged_witness:
  "splitlines (strip ''\<newline>TABLE FROM \".\"\<newline>'') = [''TABLE FROM \".\"'']
   \<and> prefix ''TABLE'' (upper (strip ''TABLE FROM \".\"''))
   \<and> table_cols (re_split [''FROM''] False [] (strip ''TABLE FROM \".\"'')) = []
   \<and> gather_files vault_ab [''v''] (from_of_parts (re_split [''FROM''] False [] (strip ''TABLE FROM \".\"'')))
       = [[''v'', ''q.md''], [''v'', ''n.md'']]
   \<and> read_file vault_ab [''v'', ''q.md''] = Inr ''```dataview\<newline>TABLE file.name, tags\<newline>```''
   \<and> read_file vault_ab [''v'', ''n.md''] = Inr ''tags:: a|b''
   \<and> process_block (\<lambda>y. None) (\<lambda>v. []) vault_ab [''v''] [''v'', ''q.md''] ''```dataview'' ''\<newline>TABLE FROM \".\"\<newline>''
       = Inr (''```dataview\<newline>TABLE FROM \".\"\<newline>```'', False, [])"
proof -
  have a: "splitlines (strip ''\<newline>TABLE FROM \".\"\<newline>'') = [''TABLE FROM \".\"'']" by code_simp
  have b: "prefix ''TABLE'' (upper (strip ''TABLE FROM \".\"''))" by code_simp
  have c: "table_cols (re_split [''FROM''] False [] (strip ''TABLE FROM \".\"'')) = []" by code_simp
  have r1: "read_file vault_ab [''v'', ''q.md''] = Inr ''```dataview\<newline>TABLE file.name, tags\<newline>```''" by code_simp
  have r2: "read_file vault_ab [''v'', ''n.md''] = Inr ''tags:: a|b''" by code_simp
  have d: "\<forall>f \<in> set (gather_files vault_ab [''v''] (from_of_parts (re_split [''FROM''] False [] (strip ''TABLE FROM \".\"'')))).
         \<exists>s. read_file vault_ab f = Inr s"
    unfolding vault_ab_files using r1 r2 by simp
  show ?thesis
    using a b c d r1 r2 vault_ab_files
      table_without_columns_unchanged [OF a b c, of "\<lambda>y. None" "\<lambda>v. []" vault_ab "[''v'']" "[''v'', ''q.md'']" "''```dataview''"]
    by (simp add: fence_def)
qed

text \<open>
  C7. A block whose first non-empty line starts with neither \<^verbatim>\<open>TABLE\<close> nor \<^verbatim>\<open>LIST\<close>, in
  any letter case, is returned as it was, logs that it was skipped, and does not set the
  changed flag.
\<close>

theorem unsupported_block_passthrough:
  assumes "splitlines (strip body) = l0 # ls"
    and "\<not> prefix ''TABLE'' (upper (strip l0))"
    and "\<not> prefix ''LIST'' (upper (strip l0))"
  shows "process_block Y S fs vault fp opening body = Inr (opening @ body @ fence, False, [Skipped fp])"
  using assms by (simp add: process_block_def)

theorem unsupported_block_passthrough_witness:
  "splitlines (strip ''\<newline>CALENDAR file.day\<newline>'') = [''CALENDAR file.day''] \<and>
   \<not> prefix ''TABLE'' (upper (strip ''CALENDAR file.day'')) \<and>
   \<not> prefix ''LIST'' (upper (strip ''CALENDAR file.day'')) \<and>
   process_block (\<lambda>y. None) (\<lambda>v. []) (Dir []) [] [''n.md''] ''```dataview'' ''\<newline>CALENDAR file.day\<newline>''
     = Inr (''```dataview\<newline>CALENDAR file.day\<newline>```'', False, [Skipped [''n.md'']])"
proof -
  have a: "splitlines (strip ''\<newline>CALENDAR file.day\<newline>'') = [''CALENDAR file.day'']"
    by code_simp
  have b: "\<not> prefix ''TABLE'' (upper (strip ''CALENDAR file.day''))" by code_simp
  have c: "\<not> prefix ''LIST'' (upper (strip ''CALENDAR file.day''))" by code_simp
  show ?thesis
    using a b c unsupported_block_passthrough [OF a b c, of "\<lambda>y. None" "\<lambda>v. []" "Dir []" "[]" "[''n.md'']" "''```dataview''"]
    by (simp add: fence_def)
qed

text \<open>
  C4. Column resolution is claimed to give a string for every document and column and
  never to raise. For the document with the header \<^verbatim>\<open>title: 123\<close> the column
  \<^verbatim>\<open>name\<close> resolves to the integer itself, on which the escaping of the table cell
  raises; for a document whose header is the plain text \<^verbatim>\<open>Some text\<close> the column
  \<^verbatim>\<open>text\<close> raises inside the resolution.
\<close>

theorem resolve_non_string_failing_input:
  "value_for_column yaml_stub str_stub doc_title_123 ''name'' [''v'', ''a.md''] [''v''] = Inr (PInt 123)
   \<and> table_cell yaml_stub str_stub [''v''] doc_title_123 [''v'', ''a.md''] ''name'' = Inl AttributeError
   \<and> value_for_column yaml_stub str_stub ''---\<newline>Some text\<newline>---\<newline>'' ''text'' [''v'', ''a.md''] [''v'']
         = Inl AttributeError"
  by code_simp

text \<open>
  C5. A \<^verbatim>\<open>FROM\<close> argument that is not a directory is claimed to fall back to the whole
  vault. An argument that names an existing file is taken as the base of the scan, which
  then finds nothing; only an argument that names nothing falls back.
\<close>

theorem gather_existing_file_failing_input:
  "exists vault_ab (path_join [''v''] (strip_quotes ''\"q.md\"''))
   \<and> \<not> is_dir vault_ab (path_join [''v''] (strip_quotes ''\"q.md\"''))
   \<and> gather_files vault_ab [''v''] (Some ''\"q.md\"'') = []
   \<and> rglob_md vault_ab [''v''] = [[''v'', ''q.md''], [''v'', ''n.md'']]"
  by code_simp

lemma gather_missing_falls_back:
  assumes "\<not> exists fs (path_join vault (strip_quotes arg))"
  shows "gather_files fs vault (Some arg) = rglob_md fs vault"
  using assms by (simp add: gather_files_def gather_base_def Let_def)

subsection \<open>Writing and reading back\<close>

lemma map_of_map_upd:
  "map_of (map (\<lambda>e. if fst e = c then (c, f (snd e)) else e) es) k =
     (if k = c then map_option f (map_of es c) else map_of es k)"
  by (induction es) auto

lemma descend_put_same:
  "q = [] \<or> (\<exists>es. descend n (butlast q) = Some (Dir es)) \<Longrightarrow> descend (put n q new) q = Some new"
proof (induction q arbitrary: n)
  case Nil
  then show ?case by simp
next
  case (Cons c cs)
  from Cons.prems obtain es0 where n: "n = Dir es0"
    by (cases n; cases cs) auto
  show ?case
  proof (cases "c \<in> fst ` set es0")
    case True
    then obtain m where m: "map_of es0 c = Some m"
      by (metis domD dom_map_of_conv_image_fst)
    have "cs = [] \<or> (\<exists>es. descend m (butlast cs) = Some (Dir es))"
      using Cons.prems n m by (cases cs) auto
    then have "descend (put m cs new) cs = Some new"
      by (rule Cons.IH)
    then show ?thesis
      using True n m by (simp add: map_of_map_upd [where f = "\<lambda>m. put m cs new"])
  next
    case False
    then have none: "map_of es0 c = None"
      by (simp add: map_of_eq_None_iff)
    with Cons.prems n have "cs = []"
      by (cases cs) auto
    then show ?thesis
      using False n none by (simp add: map_add_def)
  qed
qed

lemma descend_append:
  "descend n (p @ q) = (case descend n p of None \<Rightarrow> None | Some m \<Rightarrow> descend m q)"
proof (induction p arbitrary: n)
  case Nil
  then show ?case by simp
next
  case (Cons c cs)
  then show ?case by (cases n) (auto split: option.splits)
qed

lemma descend_butlast_dir:
  assumes "descend n p = Some (Dir es)"
  shows "\<exists>es'. descend n (butlast p) = Some (Dir es')"
proof (cases p rule: rev_cases)
  case Nil
  with assms show ?thesis by simp
next
  case (snoc q c)
  with assms have "(case descend n q of None \<Rightarrow> None | Some m \<Rightarrow> descend m [c]) = Some (Dir es)"
    by (simp add: descend_append)
  then obtain m where m: "descend n q = Some m" and "descend m [c] = Some (Dir es)"
    by (auto split: option.splits)
  then obtain es' where "m = Dir es'"
    by (cases m) auto
  with m snoc show ?thesis by simp
qed

lemma canon_parent:
  assumes "canon fs cur p = Some q" and "p \<noteq> []"
  shows "(\<exists>es. descend fs q = Some (Dir es)) \<or> (q \<noteq> [] \<and> (\<exists>es. descend fs (butlast q) = Some (Dir es)))"
  using assms
proof (induction p arbitrary: cur)
  case Nil
  then show ?case by simp
next
  case (Cons c cs)
  from Cons.prems(1) obtain es where cur: "descend fs cur = Some (Dir es)"
    and rest: "canon fs (if c = ''..'' then butlast cur else cur @ [c]) cs = Some q"
    by (auto split: option.splits node.splits)
  show ?case
  proof (cases cs)
    case Nil
    with rest have q: "q = (if c = ''..'' then butlast cur else cur @ [c])" by simp
    show ?thesis
    proof (cases "c = ''..''")
      case True
      with q cur descend_butlast_dir show ?thesis by auto
    next
      case False
      with q cur show ?thesis by auto
    qed
  next
    case (Cons d ds)
    with rest Cons.IH show ?thesis by blast
  qed
qed

lemma put_keeps_dirs:
  assumes "\<not> (\<exists>es. descend n q = Some (Dir es))" and "descend n r = Some (Dir es0)"
  shows "\<exists>es'. descend (put n q new) r = Some (Dir es')"
  using assms
proof (induction q arbitrary: n r es0)
  case Nil
  then show ?case by (cases r; cases n) auto
next
  case (Cons c cs)
  show ?case
  proof (cases n)
    case (File s)
    with Cons.prems show ?thesis by (cases r) auto
  next
    case (Dir es)
    show ?thesis
    proof (cases r)
      case Nil
      with Dir show ?thesis by auto
    next
      case (Cons d ds)
      from Cons.prems(2) Dir Cons obtain m where m: "map_of es d = Some m"
        and md: "descend m ds = Some (Dir es0)"
        by (auto split: option.splits)
      show ?thesis
      proof (cases "c \<in> fst ` set es")
        case True
        show ?thesis
        proof (cases "d = c")
          case True
          from Cons.prems(1) Dir m True have "\<not> (\<exists>es. descend m cs = Some (Dir es))"
            by simp
          from Cons.IH [OF this md] obtain es' where "descend (put m cs new) ds = Some (Dir es')"
            by blast
          with Dir Cons m True \<open>c \<in> fst ` set es\<close> show ?thesis
            by (simp add: map_of_map_upd [where f = "\<lambda>m. put m cs new"])
        next
          case False
          with Dir Cons m md True show ?thesis
            by (simp add: map_of_map_upd [where f = "\<lambda>m. put m cs new"])
        qed
      next
        case False
        with Dir Cons m md show ?thesis
          by (auto simp: map_add_def split: option.splits)
      qed
    qed
  qed
qed

lemma canon_put:
  assumes "\<not> (\<exists>es. descend fs q = Some (Dir es))" and "canon fs cur p = Some q'"
  shows "canon (put fs q new) cur p = Some q'"
  using assms(2)
proof (induction p arbitrary: cur)
  case Nil
  then show ?case by simp
next
  case (Cons c cs)
  from Cons.prems obtain es where cur: "descend fs cur = Some (Dir es)"
    and rest: "canon fs (if c = ''..'' then butlast cur else cur @ [c]) cs = Some q'"
    by (auto split: option.splits node.splits)
  from put_keeps_dirs [OF assms(1) cur] obtain es' where "descend (put fs q new) cur = Some (Dir es')"
    by blast
  with Cons.IH [OF rest] show ?case by simp
qed

lemma read_after_write:
  assumes "write_file fs p content = Inr fs'"
  shows "read_file fs' p = Inr content"
proof -
  from assms obtain q where q: "canon fs [] p = Some q"
    and nodir: "\<not> (\<exists>es. descend fs q = Some (Dir es))"
    and fs': "fs' = put fs q (File content)"
    by (auto simp: write_file_def split: option.splits node.splits)
  have par: "q = [] \<or> (\<exists>es. descend fs (butlast q) = Some (Dir es))"
  proof (cases p)
    case Nil
    with q show ?thesis by simp
  next
    case (Cons c cs)
    with canon_parent [OF q] nodir show ?thesis by auto
  qed
  have "canon fs' [] p = Some q"
    unfolding fs' by (rule canon_put [OF nodir q])
  moreover have "descend fs' q = Some (File content)"
    unfolding fs' by (rule descend_put_same [OF par])
  ultimately show ?thesis
    by (simp add: read_file_def lookup_def)
qed

subsection \<open>The changed flag\<close>

lemma find_blocks_opening:
  "Block opn body \<in> set (find_blocks t) \<Longrightarrow> upper opn = ''```DATAVIEW''"
  by (induction t rule: find_blocks.induct) (auto split: if_splits option.splits)

lemma process_block_flag:
  assumes "process_block Y S fs vault fp opn body = Inr (r, ch, l)"
  shows "(ch \<longrightarrow> r \<noteq> [] \<and> hd r = nl) \<and> (\<not> ch \<longrightarrow> r = opn @ body @ fence)"
  using assms
  by (auto simp: process_block_def Let_def render_md_table_def render_md_list_def nl_def
           split: list.splits if_splits sum.splits)

lemma opening_not_newline:
  assumes "upper opn = ''```DATAVIEW''"
  shows "opn \<noteq> [] \<and> hd opn \<noteq> nl"
proof -
  from assms obtain c cs where oc: "opn = c # cs"
    by (cases opn) (auto simp: upper_def)
  with assms have "to_upper c = CHR 0x60"
    by (simp add: upper_def)
  then have "c \<noteq> nl"
    by (auto simp: nl_def to_upper_def)
  with oc show ?thesis by simp
qed

lemma sub_segs_changed:
  assumes "sub_segs Y S fs vault fp segs = Inr (t, ch, l)"
  shows "ch \<longleftrightarrow> (\<exists>opn body r l'. Block opn body \<in> set segs \<and>
                     process_block Y S fs vault fp opn body = Inr (r, True, l'))"
  using assms
proof (induction segs arbitrary: t ch l)
  case Nil
  then show ?case by simp
next
  case (Cons sg segs)
  show ?case
  proof (cases sg)
    case (Gap c)
    with Cons.prems obtain t' where "sub_segs Y S fs vault fp segs = Inr (t', ch, l)"
      by (auto split: sum.splits)
    from Cons.IH [OF this] Gap show ?thesis by simp
  next
    case (Block opn body)
    from Cons.prems Block obtain x where x: "process_block Y S fs vault fp opn body = Inr x"
      by (auto split: sum.splits)
    obtain r ch1 l1 where xr: "x = (r, ch1, l1)"
      by (cases x)
    from Cons.prems Block x xr obtain y where y: "sub_segs Y S fs vault fp segs = Inr y"
      by (cases "sub_segs Y S fs vault fp segs") auto
    obtain t' ch' l' where yr: "y = (t', ch', l')"
      by (cases y)
    from x xr have pb: "process_block Y S fs vault fp opn body = Inr (r, ch1, l1)" by simp
    from y yr have rest: "sub_segs Y S fs vault fp segs = Inr (t', ch', l')" by simp
    from Cons.prems Block pb rest have ch: "ch = (ch1 \<or> ch')" by simp
    have here: "ch1 \<longleftrightarrow> (\<exists>r l'. process_block Y S fs vault fp opn body = Inr (r, True, l'))"
      using pb by auto
    have split: "(\<exists>a b r l'. Block a b \<in> set (sg # segs) \<and> process_block Y S fs vault fp a b = Inr (r, True, l'))
                 \<longleftrightarrow> (\<exists>r l'. process_block Y S fs vault fp opn body = Inr (r, True, l'))
                      \<or> (\<exists>a b r l'. Block a b \<in> set segs \<and> process_block Y S fs vault fp a b = Inr (r, True, l'))"
      unfolding Block by (simp only: set_simps insert_iff seg.inject) blast
    show ?thesis
      unfolding split ch here Cons.IH [OF rest] ..
  qed
qed

text \<open>
  C9. For a document that is read and whose blocks are substituted without an exception:
  the changed flag is set exactly when some block of the document was replaced by a text
  other than its own; when it is not set the file system stays as it was (no write, no
  backup file); when it is set and the step returns, the document holds the new text;
  and without a backup the step does return.
\<close>

theorem write_back_iff_changed:
  assumes rd: "read_file fs fp = Inr text"
    and sub: "sub_blocks Y S fs vault fp text = Inr (new_text, changed, l)"
  shows "(changed \<longleftrightarrow>
            (\<exists>opn body r ch l'. Block opn body \<in> set (find_blocks text)
               \<and> process_block Y S fs vault fp opn body = Inr (r, ch, l')
               \<and> r \<noteq> opn @ body @ fence))
       \<and> (\<not> changed \<longrightarrow> convert_file Y S vault backup fs fp = Inr (fs, l))
       \<and> (changed \<longrightarrow>
            (\<forall>fs' l'. convert_file Y S vault backup fs fp = Inr (fs', l') \<longrightarrow> read_file fs' fp = Inr new_text))
       \<and> (changed \<and> \<not> backup \<longrightarrow>
            (\<exists>fs'. convert_file Y S vault backup fs fp = Inr (fs', l @ [Updated fp])))"
proof -
  let ?segs = "find_blocks text"
  from sub have segs: "sub_segs Y S fs vault fp ?segs = Inr (new_text, changed, l)"
    by (simp add: sub_blocks_def)
  have replaced: "(\<exists>l'. process_block Y S fs vault fp opn body = Inr (r, True, l'))
                    \<longleftrightarrow> (\<exists>ch l'. process_block Y S fs vault fp opn body = Inr (r, ch, l')
                                    \<and> r \<noteq> opn @ body @ fence)"
    if blk: "Block opn body \<in> set ?segs" for opn body r
  proof
    assume "\<exists>l'. process_block Y S fs vault fp opn body = Inr (r, True, l')"
    then obtain l' where pb: "process_block Y S fs vault fp opn body = Inr (r, True, l')" ..
    from process_block_flag [OF pb] have "r \<noteq> [] \<and> hd r = nl" by simp
    moreover from opening_not_newline [OF find_blocks_opening [OF blk]]
    have "hd (opn @ body @ fence) \<noteq> nl" by simp
    ultimately have "r \<noteq> opn @ body @ fence" by auto
    with pb show "\<exists>ch l'. process_block Y S fs vault fp opn body = Inr (r, ch, l') \<and> r \<noteq> opn @ body @ fence"
      by blast
  next
    assume "\<exists>ch l'. process_block Y S fs vault fp opn body = Inr (r, ch, l') \<and> r \<noteq> opn @ body @ fence"
    then obtain ch l' where pb: "process_block Y S fs vault fp opn body = Inr (r, ch, l')"
      and ne: "r \<noteq> opn @ body @ fence" by blast
    from process_block_flag [OF pb] ne have ch by blast
    with pb show "\<exists>l'. process_block Y S fs vault fp opn body = Inr (r, True, l')" by auto
  qed
  have first: "changed \<longleftrightarrow>
            (\<exists>opn body r ch l'. Block opn body \<in> set ?segs
               \<and> process_block Y S fs vault fp opn body = Inr (r, ch, l')
               \<and> r \<noteq> opn @ body @ fence)"
    unfolding sub_segs_changed [OF segs] using replaced by blast
  have second: "convert_file Y S vault backup fs fp = Inr (fs, l)" if "\<not> changed"
    using that rd sub by (simp add: convert_file_def)
  have third: "read_file fs' fp = Inr new_text"
    if "changed" and cf: "convert_file Y S vault backup fs fp = Inr (fs', l')" for fs' l'
  proof -
    from cf rd sub \<open>changed\<close> obtain fs1 where "write_file fs1 fp new_text = Inr fs'"
      by (auto simp: convert_file_def split: sum.splits)
    then show ?thesis by (rule read_after_write)
  qed
  have fourth: "\<exists>fs'. convert_file Y S vault backup fs fp = Inr (fs', l @ [Updated fp])"
    if "changed" and "\<not> backup"
  proof -
    from rd obtain q where q: "canon fs [] fp = Some q" and f: "descend fs q = Some (File text)"
      by (auto simp: read_file_def lookup_def split: option.splits node.splits)
    then have "write_file fs fp new_text = Inr (put fs q (File new_text))"
      by (simp add: write_file_def)
    with that rd sub show ?thesis
      by (simp add: convert_file_def backup_file_def)
  qed
  from first second third fourth show ?thesis by blast
qed

theorem write_back_iff_changed_witness:
  "read_file vault_ab [''v'', ''q.md''] = Inr ''```dataview\<newline>TABLE file.name, tags\<newline>```''
   \<and> sub_blocks (\<lambda>y. None) (\<lambda>v. []) vault_ab [''v''] [''v'', ''q.md''] ''```dataview\<newline>TABLE file.name, tags\<newline>```''
       = Inr (''\<newline>| file.name | tags |\<newline>| --- | --- |\<newline>| q |  |\<newline>| n | a'' @ [bslash] @ ''|b |\<newline>'', True,
              [ConvertedTable None [''v'', ''q.md'']])
   \<and> convert_file (\<lambda>y. None) (\<lambda>v. []) [''v''] False vault_ab [''v'', ''q.md'']
       = Inr (Dir [(''v'', Dir [(''q.md'', File (''\<newline>| file.name | tags |\<newline>| --- | --- |\<newline>| q |  |\<newline>| n | a'' @ [bslash] @ ''|b |\<newline>'')),
                                 (''n.md'', File ''tags:: a|b'')])],
              [ConvertedTable None [''v'', ''q.md''], Updated [''v'', ''q.md'']])
   \<and> read_file (Dir [(''v'', Dir [(''q.md'', File (''\<newline>| file.name | tags |\<newline>| --- | --- |\<newline>| q |  |\<newline>| n | a'' @ [bslash] @ ''|b |\<newline>'')),
                                 (''n.md'', File ''tags:: a|b'')])]) [''v'', ''q.md'']
       = Inr (''\<newline>| file.name | tags |\<newline>| --- | --- |\<newline>| q |  |\<newline>| n | a'' @ [bslash] @ ''|b |\<newline>'')
   \<and> read_file vault_ab [''v'', ''n.md''] = Inr ''tags:: a|b''
   \<and> sub_blocks (\<lambda>y. None) (\<lambda>v. []) vault_ab [''v''] [''v'', ''n.md''] ''tags:: a|b'' = Inr (''tags:: a|b'', False, [])
   \<and> convert_file (\<lambda>y. None) (\<lambda>v. []) [''v''] True vault_ab [''v'', ''n.md''] = Inr (vault_ab, [])"
proof -
  let ?new = "''\<newline>| file.name | tags |\<newline>| --- | --- |\<newline>| q |  |\<newline>| n | a'' @ [bslash] @ ''|b |\<newline>''"
  let ?fs' = "Dir [(''v'', Dir [(''q.md'', File ?new), (''n.md'', File ''tags:: a|b'')])]"
  have rd: "read_file vault_ab [''v'', ''q.md''] = Inr ''```dataview\<newline>TABLE file.name, tags\<newline>```''"
    by code_simp
  have sub: "sub_blocks (\<lambda>y. None) (\<lambda>v. []) vault_ab [''v''] [''v'', ''q.md''] ''```dataview\<newline>TABLE file.name, tags\<newline>```''
       = Inr (?new, True, [ConvertedTable None [''v'', ''q.md'']])"
    by code_simp
  have cf: "convert_file (\<lambda>y. None) (\<lambda>v. []) [''v''] False vault_ab [''v'', ''q.md'']
       = Inr (?fs', [ConvertedTable None [''v'', ''q.md''], Updated [''v'', ''q.md'']])"
    by code_simp
  from write_back_iff_changed [OF rd sub, of False] cf
  have after: "read_file ?fs' [''v'', ''q.md''] = Inr ?new"
    by blast
  have rd2: "read_file vault_ab [''v'', ''n.md''] = Inr ''tags:: a|b''"
    by code_simp
  have sub2: "sub_blocks (\<lambda>y. None) (\<lambda>v. []) vault_ab [''v''] [''v'', ''n.md''] ''tags:: a|b'' = Inr (''tags:: a|b'', False, [])"
    by code_simp
  from write_back_iff_changed [OF rd2 sub2, of True]
  have same: "convert_file (\<lambda>y. None) (\<lambda>v. []) [''v''] True vault_ab [''v'', ''n.md''] = Inr (vault_ab, [])"
    by blast
  from rd sub cf after rd2 sub2 same show ?thesis
    by blast
qed

subsection \<open>Substitution in any order\<close>

lemma sub_segs_Inl:
  assumes "sg \<in> set segs" and "seg_out Y S fs vault fp sg = Inl e"
  shows "\<exists>e'. sub_segs Y S fs vault fp segs = Inl e'"
  using assms
proof (induction segs)
  case Nil
  then show ?case by simp
next
  case (Cons s segs)
  show ?case
  proof (cases s)
    case (Gap c)
    with Cons.prems have "sg \<in> set segs" by (auto simp: seg_out_def)
    from Cons.IH [OF this Cons.prems(2)] Gap show ?thesis by auto
  next
    case (Block opn body)
    show ?thesis
    proof (cases "process_block Y S fs vault fp opn body")
      case (Inl e1)
      with Block show ?thesis by simp
    next
      case (Inr x)
      with Cons.prems Block have "sg \<in> set segs" by (auto simp: seg_out_def split: prod.splits)
      from Cons.IH [OF this Cons.prems(2)] Block Inr show ?thesis
        by (auto split: prod.splits)
    qed
  qed
qed

lemma sub_segs_Inr:
  assumes "length rs = length segs"
    and "\<forall>i < length segs. seg_out Y S fs vault fp (segs ! i) = Inr (rs ! i)"
  shows "\<exists>ch l. sub_segs Y S fs vault fp segs = Inr (concat rs, ch, l)"
  using assms
proof (induction segs arbitrary: rs)
  case Nil
  then show ?case by auto
next
  case (Cons s segs)
  from Cons.prems(1) obtain r rs' where rs: "rs = r # rs'" and len: "length rs' = length segs"
    by (cases rs) auto
  from Cons.prems(2) rs have hd: "seg_out Y S fs vault fp s = Inr r"
    and tl: "\<forall>i < length segs. seg_out Y S fs vault fp (segs ! i) = Inr (rs' ! i)"
    by fastforce+
  from Cons.IH [OF len tl] obtain ch l where rest: "sub_segs Y S fs vault fp segs = Inr (concat rs', ch, l)"
    by blast
  show ?case
  proof (cases s)
    case (Gap c)
    with hd rest rs show ?thesis by (simp add: seg_out_def)
  next
    case (Block opn body)
    with hd rest rs show ?thesis
      by (auto simp: seg_out_def split: sum.splits)
  qed
qed

lemma substitute_at_Inr:
  assumes ok: "length items = length segs" "\<forall>i < length segs. item_ok Y S fs vault fp (segs ! i) (items ! i)"
    and step: "substitute_at Y S fs vault fp k items = Inr items'"
  shows "length items' = length segs
       \<and> (\<forall>i < length segs. item_ok Y S fs vault fp (segs ! i) (items' ! i))
       \<and> (\<forall>i < length segs. \<forall>r. items ! i = Done r \<longrightarrow> items' ! i = Done r)
       \<and> (k < length segs \<and> is_block (segs ! k) \<longrightarrow> (\<exists>r. items' ! k = Done r))"
proof (cases "k < length items")
  case False
  with step ok show ?thesis by (simp add: substitute_at_def)
next
  case True
  with ok have okk: "item_ok Y S fs vault fp (segs ! k) (items ! k)" by simp
  show ?thesis
  proof (cases "items ! k")
    case (Done r)
    with step True have "items' = items" by (simp add: substitute_at_def)
    with ok Done show ?thesis by auto
  next
    case (Todo sg)
    with okk have sg: "sg = segs ! k" by (auto simp: item_ok_def)
    show ?thesis
    proof (cases sg)
      case (Gap c)
      with step True Todo have "items' = items" by (simp add: substitute_at_def)
      with ok Gap sg show ?thesis by (auto simp: is_block_def)
    next
      case (Block opn body)
      with step True Todo obtain r ch l where pb: "process_block Y S fs vault fp opn body = Inr (r, ch, l)"
        and items': "items' = items[k := Done r]"
        by (auto simp: substitute_at_def split: sum.splits)
      from pb Block sg have out: "seg_out Y S fs vault fp (segs ! k) = Inr r"
        by (simp add: seg_out_def)
      have blk: "is_block (segs ! k)"
        using Block sg by (simp add: is_block_def)
      have "item_ok Y S fs vault fp (segs ! i) (items' ! i)" if "i < length segs" for i
        using that ok out blk items' by (cases "i = k") (auto simp: item_ok_def)
      moreover have "items' ! i = Done r'" if "i < length segs" "items ! i = Done r'" for i r'
        using that items' Todo by (cases "i = k") auto
      ultimately show ?thesis
        using ok True items' by auto
    qed
  qed
qed

lemma substitute_at_Inl:
  assumes ok: "length items = length segs" "\<forall>i < length segs. item_ok Y S fs vault fp (segs ! i) (items ! i)"
    and step: "substitute_at Y S fs vault fp k items = Inl e"
  shows "k < length segs \<and> seg_out Y S fs vault fp (segs ! k) = Inl e"
proof -
  from step have k: "k < length items"
    by (auto simp: substitute_at_def split: if_splits)
  with step obtain opn body where it: "items ! k = Todo (Block opn body)"
    and pb: "process_block Y S fs vault fp opn body = Inl e"
    by (auto simp: substitute_at_def split: item.splits seg.splits sum.splits)
  from ok k it have "segs ! k = Block opn body"
    by (auto simp: item_ok_def)
  with pb k ok show ?thesis by (simp add: seg_out_def)
qed

lemma substitute_in_order_Inr:
  assumes "length items = length segs" "\<forall>i < length segs. item_ok Y S fs vault fp (segs ! i) (items ! i)"
    and "substitute_in_order Y S fs vault fp order items = Inr items'"
  shows "length items' = length segs
       \<and> (\<forall>i < length segs. item_ok Y S fs vault fp (segs ! i) (items' ! i))
       \<and> (\<forall>i < length segs. \<forall>r. items ! i = Done r \<longrightarrow> items' ! i = Done r)
       \<and> (\<forall>k \<in> set order. k < length segs \<and> is_block (segs ! k) \<longrightarrow> (\<exists>r. items' ! k = Done r))"
  using assms
proof (induction order arbitrary: items)
  case Nil
  then show ?case by simp
next
  case (Cons k order)
  from Cons.prems(3) obtain items1 where one: "substitute_at Y S fs vault fp k items = Inr items1"
    and rest: "substitute_in_order Y S fs vault fp order items1 = Inr items'"
    by (auto split: sum.splits)
  note a = substitute_at_Inr [OF Cons.prems(1,2) one]
  from a have len1: "length items1 = length segs"
    and ok1: "\<forall>i < length segs. item_ok Y S fs vault fp (segs ! i) (items1 ! i)" by blast+
  note b = Cons.IH [OF len1 ok1 rest]
  from a b show ?case
    by (simp only: list.set ball_simps insert_iff) blast
qed

lemma substitute_in_order_Inl:
  assumes "length items = length segs" "\<forall>i < length segs. item_ok Y S fs vault fp (segs ! i) (items ! i)"
    and "substitute_in_order Y S fs vault fp order items = Inl e"
  shows "\<exists>k < length segs. seg_out Y S fs vault fp (segs ! k) = Inl e"
  using assms
proof (induction order arbitrary: items)
  case Nil
  then show ?case by simp
next
  case (Cons k order)
  show ?case
  proof (cases "substitute_at Y S fs vault fp k items")
    case (Inl e1)
    with Cons.prems(3) have "e1 = e" by simp
    with substitute_at_Inl [OF Cons.prems(1,2)] Inl show ?thesis by blast
  next
    case (Inr items1)
    with Cons.prems(3) have rest: "substitute_in_order Y S fs vault fp order items1 = Inl e" by simp
    note a = substitute_at_Inr [OF Cons.prems(1,2) Inr]
    from a have len1: "length items1 = length segs"
      and ok1: "\<forall>i < length segs. item_ok Y S fs vault fp (segs ! i) (items1 ! i)" by blast+
    from Cons.IH [OF len1 ok1 rest] show ?thesis .
  qed
qed

text \<open>
  C8. Substituting the blocks of a document one at a time, in any order that reaches
  every block, gives the text that the converter's left-to-right substitution gives, and
  raises exactly when that one raises: the replacement of a span is computed from the
  span and the file system alone.
\<close>

theorem substitution_order_independent:
  assumes cover: "\<forall>i < length (find_blocks text). is_block (find_blocks text ! i) \<longrightarrow> i \<in> set order"
  shows "case substitute_in_order Y S fs vault fp order (map Todo (find_blocks text)) of
           Inl e \<Rightarrow> \<exists>e'. sub_blocks Y S fs vault fp text = Inl e'
         | Inr items \<Rightarrow> \<exists>ch l. sub_blocks Y S fs vault fp text = Inr (concat (map item_text items), ch, l)"
proof -
  let ?segs = "find_blocks text"
  have len0: "length (map Todo ?segs) = length ?segs" by simp
  have ok0: "\<forall>i < length ?segs. item_ok Y S fs vault fp (?segs ! i) (map Todo ?segs ! i)"
    by (simp add: item_ok_def)
  show ?thesis
  proof (cases "substitute_in_order Y S fs vault fp order (map Todo ?segs)")
    case (Inl e)
    from substitute_in_order_Inl [OF len0 ok0 Inl] obtain k where "k < length ?segs"
      and "seg_out Y S fs vault fp (?segs ! k) = Inl e" by blast
    then have "\<exists>e'. sub_segs Y S fs vault fp ?segs = Inl e'"
      using sub_segs_Inl [of "?segs ! k" ?segs] by simp
    with Inl show ?thesis by (simp add: sub_blocks_def)
  next
    case (Inr items)
    note a = substitute_in_order_Inr [OF len0 ok0 Inr]
    from a have len: "length items = length ?segs"
      and ok: "\<forall>i < length ?segs. item_ok Y S fs vault fp (?segs ! i) (items ! i)"
      and fin: "\<forall>k \<in> set order. k < length ?segs \<and> is_block (?segs ! k) \<longrightarrow> (\<exists>r. items ! k = Done r)"
      by blast+
    have out: "seg_out Y S fs vault fp (?segs ! i) = Inr (map item_text items ! i)" if i: "i < length ?segs" for i
    proof (cases "?segs ! i")
      case (Gap c)
      with ok i have "items ! i = Todo (Gap c)" by (auto simp: item_ok_def is_block_def)
      with Gap i len show ?thesis by (simp add: seg_out_def)
    next
      case (Block opn body)
      with cover i have "i \<in> set order" by (simp add: is_block_def)
      with fin i Block obtain r where r: "items ! i = Done r" by (auto simp: is_block_def)
      with ok i have "seg_out Y S fs vault fp (?segs ! i) = Inr r" by (auto simp: item_ok_def)
      with r i len show ?thesis by simp
    qed
    have "\<exists>ch l. sub_segs Y S fs vault fp ?segs = Inr (concat (map item_text items), ch, l)"
      by (rule sub_segs_Inr) (use len out in simp_all)
    with Inr show ?thesis by (simp add: sub_blocks_def)
  qed
qed

theorem substitution_order_independent_witness:
  "find_blocks doc_two_blocks = [Block ''```dataview'' '' LIST'', Gap CHR ''-'', Block ''```dataview'' '' TABLE file'']
   \<and> is_block (find_blocks doc_two_blocks ! 0) \<and> 0 \<in> set [2, 0::nat]
   \<and> \<not> is_block (find_blocks doc_two_blocks ! 1)
   \<and> is_block (find_blocks doc_two_blocks ! 2) \<and> 2 \<in> set [2, 0::nat]
   \<and> substitute_in_order (\<lambda>y. None) (\<lambda>v. []) vault_ab [''v''] [''v'', ''q.md''] [2, 0] (map Todo (find_blocks doc_two_blocks))
       = Inr [Done ''\<newline>- [q](q.md)\<newline>- [n](n.md)\<newline>'', Todo (Gap CHR ''-''), Done ''\<newline>| file |\<newline>| --- |\<newline>| q |\<newline>| n |\<newline>'']
   \<and> (\<exists>ch l. sub_blocks (\<lambda>y. None) (\<lambda>v. []) vault_ab [''v''] [''v'', ''q.md''] doc_two_blocks
         = Inr (''\<newline>- [q](q.md)\<newline>- [n](n.md)\<newline>-\<newline>| file |\<newline>| --- |\<newline>| q |\<newline>| n |\<newline>'', ch, l))"
proof -
  let ?items = "[Done ''\<newline>- [q](q.md)\<newline>- [n](n.md)\<newline>'', Todo (Gap CHR ''-''), Done ''\<newline>| file |\<newline>| --- |\<newline>| q |\<newline>| n |\<newline>'']"
  have segs: "find_blocks doc_two_blocks = [Block ''```dataview'' '' LIST'', Gap CHR ''-'', Block ''```dataview'' '' TABLE file'']"
    by code_simp
  have b0: "is_block (find_blocks doc_two_blocks ! 0)" and b1: "\<not> is_block (find_blocks doc_two_blocks ! 1)"
    and b2: "is_block (find_blocks doc_two_blocks ! 2)"
    unfolding segs by (simp_all add: is_block_def)
  have cover: "\<forall>i < length (find_blocks doc_two_blocks). is_block (find_blocks doc_two_blocks ! i) \<longrightarrow> i \<in> set [2, 0]"
  proof (intro allI impI)
    fix i assume "i < length (find_blocks doc_two_blocks)" and blk: "is_block (find_blocks doc_two_blocks ! i)"
    then have "i = 0 \<or> i = 1 \<or> i = 2" unfolding segs by auto
    with blk b1 show "i \<in> set [2, 0]" by auto
  qed
  have run: "substitute_in_order (\<lambda>y. None) (\<lambda>v. []) vault_ab [''v''] [''v'', ''q.md''] [2, 0] (map Todo (find_blocks doc_two_blocks))
       = Inr ?items"
    by code_simp
  have flat: "concat (map item_text ?items) = ''\<newline>- [q](q.md)\<newline>- [n](n.md)\<newline>-\<newline>| file |\<newline>| --- |\<newline>| q |\<newline>| n |\<newline>''"
    by simp
  from substitution_order_independent [OF cover, of "\<lambda>y. None" "\<lambda>v. []" vault_ab "[''v'']" "[''v'', ''q.md'']"]
  have "\<exists>ch l. sub_blocks (\<lambda>y. None) (\<lambda>v. []) vault_ab [''v''] [''v'', ''q.md''] doc_two_blocks
         = Inr (concat (map item_text ?items), ch, l)"
    unfolding run by simp
  then have same: "\<exists>ch l. sub_blocks (\<lambda>y. None) (\<lambda>v. []) vault_ab [''v''] [''v'', ''q.md''] doc_two_blocks
         = Inr (''\<newline>- [q](q.md)\<newline>- [n](n.md)\<newline>-\<newline>| file |\<newline>| --- |\<newline>| q |\<newline>| n |\<newline>'', ch, l)"
    unfolding flat .
  from segs b0 b1 b2 run same show ?thesis by simp
qed

subsection \<open>Walking the file tree\<close>

lemma wf_node_descend:
  "wf_node n \<Longrightarrow> descend n p = Some m \<Longrightarrow> wf_node m"
proof (induction p arbitrary: n)
  case Nil
  then show ?case by simp
next
  case (Cons c cs)
  from Cons.prems(2) obtain es n' where n: "n = Dir es" and c: "map_of es c = Some n'"
    and rest: "descend n' cs = Some m"
    by (cases n) (auto split: option.splits)
  from c have "(c, n') \<in> set es" by (rule map_of_SomeD)
  with Cons.prems(1) n have "wf_node n'" by auto
  from Cons.IH [OF this rest] show ?case .
qed

lemma walk_md_sound:
  "wf_node n \<Longrightarrow> rel \<in> set (walk_md n) \<Longrightarrow>
     rel \<noteq> [] \<and> (\<exists>m. descend n rel = Some m) \<and> is_md (last rel) \<and> ''..'' \<notin> set rel"
proof (induction n arbitrary: rel rule: walk_md.induct)
  case (1 s)
  then show ?case by simp
next
  case (2 es)
  from "2.prems"(2) consider
      (here) e where "e \<in> set es" "is_md (fst e)" "rel = [fst e]"
    | (below) e r where "e \<in> set es" "r \<in> set (walk_md (snd e))" "rel = fst e # r"
    by auto
  then show ?case
  proof cases
    case here
    from "2.prems"(1) here(1) have look: "map_of es (fst e) = Some (snd e)" and nm: "fst e \<noteq> ''..''"
      by (auto intro: map_of_is_SomeI)
    with here show ?thesis by simp
  next
    case below
    from "2.prems"(1) below(1) have look: "map_of es (fst e) = Some (snd e)" and nm: "fst e \<noteq> ''..''"
      and wf: "wf_node (snd e)"
      by (auto intro: map_of_is_SomeI)
    from "2.IH" [OF below(1) wf below(2)] look nm below(3) show ?thesis
      by auto
  qed
qed

lemma walk_md_complete:
  "descend n rel = Some m \<Longrightarrow> rel \<noteq> [] \<Longrightarrow> is_md (last rel) \<Longrightarrow> rel \<in> set (walk_md n)"
proof (induction rel arbitrary: n)
  case Nil
  then show ?case by simp
next
  case (Cons c cs)
  from Cons.prems(1) obtain es n' where n: "n = Dir es" and c: "map_of es c = Some n'"
    and rest: "descend n' cs = Some m"
    by (cases n) (auto split: option.splits)
  from c have mem: "(c, n') \<in> set es" by (rule map_of_SomeD)
  show ?case
  proof (cases cs)
    case Nil
    with Cons.prems(3) have "is_md c" by simp
    with mem n Nil show ?thesis by force
  next
    case (Cons d ds)
    with Cons.prems(3) have "is_md (last cs)" by simp
    with Cons.IH [OF rest] Cons have "cs \<in> set (walk_md n')" by simp
    with mem n show ?thesis by force
  qed
qed

lemma canon_append:
  "canon fs cur (p @ q) = (case canon fs cur p of None \<Rightarrow> None | Some c \<Rightarrow> canon fs c q)"
  by (induction p arbitrary: cur) (auto split: option.splits node.splits)

lemma canon_plain:
  "''..'' \<notin> set rel \<Longrightarrow> descend fs (cur @ rel) = Some n \<Longrightarrow> canon fs cur rel = Some (cur @ rel)"
proof (induction rel arbitrary: cur)
  case Nil
  then show ?case by simp
next
  case (Cons c cs)
  from Cons.prems(2) obtain m where m: "descend fs cur = Some m" and down: "descend m (c # cs) = Some n"
    by (auto simp: descend_append split: option.splits)
  then obtain es where dir: "m = Dir es" by (cases m) auto
  from Cons.prems have "canon fs (cur @ [c]) cs = Some ((cur @ [c]) @ cs)"
    by (intro Cons.IH) auto
  with m dir Cons.prems(1) show ?case by auto
qed

lemma canon_no_dotdot:
  "canon fs cur p = Some q \<Longrightarrow> ''..'' \<notin> set cur \<Longrightarrow> ''..'' \<notin> set q"
proof (induction p arbitrary: cur)
  case Nil
  then show ?case by simp
next
  case (Cons c cs)
  from Cons.prems(1) have rest: "canon fs (if c = ''..'' then butlast cur else cur @ [c]) cs = Some q"
    by (auto split: option.splits node.splits)
  have "''..'' \<notin> set (if c = ''..'' then butlast cur else cur @ [c])"
    using Cons.prems(2) by (auto dest: in_set_butlastD)
  from Cons.IH [OF rest this] show ?case .
qed

lemma map_err_has_row:
  assumes "map_err f xs = Inr ys" and "q \<in> set xs"
  shows "\<exists>i < length ys. f q = Inr (ys ! i)"
proof -
  from assms(2) obtain i where "i < length xs" "xs ! i = q"
    by (auto simp: in_set_conv_nth)
  with assms(1) show ?thesis
    by (auto simp: map_err_Inr_iff)
qed

text \<open>In a well-formed file tree, a scan whose base resolves to a proper ancestor of a
  document gathers a path that resolves to that document.\<close>

lemma gather_holds_own_document:
  assumes wf: "wf_node fs"
    and doc: "fp \<in> set (rglob_md fs vault)"
    and base: "canon fs [] (gather_base fs vault from_path) = Some b"
    and own: "canon fs [] fp = Some f"
    and anc: "strict_prefix b f"
  shows "\<exists>q \<in> set (gather_files fs vault from_path).
           canon fs [] q = Some f \<and> read_file fs q = read_file fs fp"
proof -
  let ?base = "gather_base fs vault from_path"
  have "\<exists>es rel. lookup fs vault = Some (Dir es) \<and> fp = vault @ rel \<and> rel \<in> set (walk_md (Dir es))"
  proof (cases "lookup fs vault")
    case None
    with doc show ?thesis by (simp add: rglob_md_def)
  next
    case (Some n)
    show ?thesis
    proof (cases n)
      case (File s)
      with doc Some show ?thesis by (simp add: rglob_md_def)
    next
      case (Dir es)
      with doc Some show ?thesis by (auto simp: rglob_md_def simp del: walk_md.simps)
    qed
  qed
  then obtain es rel where lv: "lookup fs vault = Some (Dir es)"
    and fp: "fp = vault @ rel" and rel: "rel \<in> set (walk_md (Dir es))"
    by blast
  from lv obtain V where V: "canon fs [] vault = Some V" and dV: "descend fs V = Some (Dir es)"
    by (auto simp: lookup_def split: option.splits)
  from wf dV have "wf_node (Dir es)" by (rule wf_node_descend)
  from walk_md_sound [OF this rel] obtain n where rel_ne: "rel \<noteq> []"
    and down: "descend (Dir es) rel = Some n" and md: "is_md (last rel)" and plain: "''..'' \<notin> set rel"
    by blast
  from dV down have dfp: "descend fs (V @ rel) = Some n"
    by (simp add: descend_append)
  have "canon fs [] fp = Some (V @ rel)"
    unfolding fp using V canon_plain [OF plain dfp] by (simp add: canon_append)
  with own have f: "f = V @ rel" by simp
  from anc obtain rel' where f': "f = b @ rel'" and rel'_ne: "rel' \<noteq> []"
    by (auto simp: strict_prefix_def prefix_def)
  from f f' have eq: "V @ rel = b @ rel'" by simp
  from dfp have dq: "descend fs (b @ rel') = Some n" unfolding eq .
  then obtain mb where db: "descend fs b = Some mb" and down': "descend mb rel' = Some n"
    by (auto simp: descend_append split: option.splits)
  from down' rel'_ne obtain es' where mb: "mb = Dir es'"
    by (cases mb; cases rel') auto
  have "last rel' = last rel"
    using f f' rel_ne rel'_ne by (metis last_appendR)
  with md have md': "is_md (last rel')" by simp
  from down' mb have in_walk: "rel' \<in> set (walk_md (Dir es'))"
    using walk_md_complete [OF _ rel'_ne md'] by (simp del: walk_md.simps)
  from base db mb have "lookup fs ?base = Some (Dir es')"
    by (simp add: lookup_def)
  then have files: "gather_files fs vault from_path = map ((@) ?base) (walk_md (Dir es'))"
    by (simp add: gather_files_def rglob_md_def del: walk_md.simps)
  let ?q = "?base @ rel'"
  from in_walk files have q_in: "?q \<in> set (gather_files fs vault from_path)"
    by (simp del: walk_md.simps)
  have "''..'' \<notin> set f"
    using canon_no_dotdot [OF own] by simp
  with f' have plain': "''..'' \<notin> set rel'" by simp
  from canon_plain [OF plain' dq] base f' have cq: "canon fs [] ?q = Some f"
    by (simp add: canon_append)
  with own have rq: "read_file fs ?q = read_file fs fp"
    by (simp add: read_file_def lookup_def)
  from q_in cq rq show ?thesis
    by blast
qed

lemma join_str_holds:
  "x \<in> set xs \<Longrightarrow> \<exists>pre post. join_str sep xs = pre @ x @ post"
proof (induction sep xs rule: join_str.induct)
  case (1 sep)
  then show ?case by simp
next
  case (2 sep y)
  then have "join_str sep [y] = [] @ x @ []" by simp
  then show ?case by blast
next
  case (3 sep y z zs)
  show ?case
  proof (cases "x = y")
    case True
    then have "join_str sep (y # z # zs) = [] @ x @ (sep @ join_str sep (z # zs))" by simp
    then show ?thesis by blast
  next
    case False
    with "3.prems" have "x \<in> set (z # zs)" by simp
    from "3.IH" [OF this] obtain pre post where "join_str sep (z # zs) = pre @ x @ post" by blast
    then have "join_str sep (y # z # zs) = (y @ sep @ pre) @ x @ post" by simp
    then show ?thesis by blast
  qed
qed

lemma render_md_table_holds_row:
  assumes "i < length rows"
  shows "\<exists>pre post. render_md_table cols rows = pre @ render_row (rows ! i) @ post"
proof -
  from assms have "render_row (rows ! i) \<in> set (map render_row rows)" by simp
  from join_str_holds [OF this] obtain pre post
    where j: "join_str [CHR 0x0A] (map render_row rows) = pre @ render_row (rows ! i) @ post" by blast
  have "render_md_table cols rows =
          ([CHR 0x0A] @ render_row cols @ [CHR 0x0A] @ render_row (replicate (length cols) ''---'') @ [CHR 0x0A] @ pre)
          @ render_row (rows ! i) @ (post @ [CHR 0x0A])"
    unfolding render_md_table_def Let_def j by simp
  then show ?thesis by blast
qed

lemma render_md_list_holds_item:
  assumes "i < length items"
  shows "\<exists>pre post. render_md_list items = pre @ (''- '' @ items ! i) @ post"
proof -
  from assms have "''- '' @ items ! i \<in> set (map (\<lambda>it. ''- '' @ it) items)" by simp
  from join_str_holds [OF this] obtain pre post
    where j: "join_str [CHR 0x0A] (map (\<lambda>it. ''- '' @ it) items) = pre @ (''- '' @ items ! i) @ post" by blast
  have "render_md_list items = ([CHR 0x0A] @ pre) @ (''- '' @ items ! i) @ (post @ [CHR 0x0A])"
    unfolding render_md_list_def j by simp
  then show ?thesis by blast
qed

text \<open>
  C10. In a well-formed file tree, let a document that the conversion walks through hold
  a query block, and let the base of the block's scan (the \<^verbatim>\<open>FROM\<close> subtree or the vault
  root) resolve to a proper ancestor of the document's resolved path. If the block is
  replaced by a rendering, then the gathered files hold a path that resolves to the
  document itself and is read with the document's content on disk (the content before
  the substitution), and the rendering holds the line made for it: for a TABLE the row
  of the escaped values that the columns resolve to on that content, for a LIST the item
  with the title and the relative path resolved on that content.
\<close>

theorem scan_includes_own_document:
  assumes wf: "wf_node fs"
    and doc: "fp \<in> set (rglob_md fs vault)"
    and rd: "read_file fs fp = Inr text"
    and blk: "Block opening body \<in> set (find_blocks text)"
    and lines: "splitlines (strip body) = l0 # ls"
    and src: "from_path = from_of_parts (re_split [''FROM''] False [] (strip l0))"
    and cols: "cols = table_cols (re_split [''FROM''] False [] (strip l0))"
    and base: "canon fs [] (gather_base fs vault from_path) = Some b"
    and own: "canon fs [] fp = Some f"
    and anc: "strict_prefix b f"
    and res: "process_block Y S fs vault fp opening body = Inr (out, True, l)"
  shows "\<exists>q \<in> set (gather_files fs vault from_path).
           canon fs [] q = Some f \<and> read_file fs q = Inr text
         \<and> (prefix ''TABLE'' (upper (strip l0)) \<longrightarrow>
              (\<exists>row pre post. length row = length cols
                 \<and> (\<forall>j < length cols. \<exists>s. value_for_column Y S text (cols ! j) q vault = Inr (PStr s)
                                           \<and> row ! j = replace_pipe s)
                 \<and> out = pre @ render_row row @ post))
         \<and> (\<not> prefix ''TABLE'' (upper (strip l0)) \<longrightarrow>
              (\<exists>t rel pre post. value_for_column Y S text ''title'' q vault = Inr t
                 \<and> relative_to q vault = Inr rel
                 \<and> out = pre @ (''- ['' @ py_str S (if py_truthy t then t else PStr (stem q)) @ '']('' @ path_str rel @ '')'')
                         @ post))"
proof -
  let ?files = "gather_files fs vault from_path"
  from gather_holds_own_document [OF wf doc base own anc] obtain q where q_in: "q \<in> set ?files"
    and cq: "canon fs [] q = Some f" and rq: "read_file fs q = read_file fs fp"
    by blast
  from rq rd have rdq: "read_file fs q = Inr text" by simp
  have table: "\<exists>row pre post. length row = length cols
                 \<and> (\<forall>j < length cols. \<exists>s. value_for_column Y S text (cols ! j) q vault = Inr (PStr s)
                                           \<and> row ! j = replace_pipe s)
                 \<and> out = pre @ render_row row @ post"
    if kind: "prefix ''TABLE'' (upper (strip l0))"
  proof -
    from res lines kind src cols obtain rows
      where rows: "map_err (table_row Y S fs vault cols) ?files = Inr rows"
        and out: "out = render_md_table cols rows"
      by (auto simp: process_block_def Let_def split: sum.splits if_splits)
    from map_err_has_row [OF rows q_in] obtain i where i: "i < length rows"
      and row: "table_row Y S fs vault cols q = Inr (rows ! i)" by blast
    from table_row_Inr [OF row] rdq have len: "length (rows ! i) = length cols"
      and cells: "\<forall>j < length cols. \<exists>s. value_for_column Y S text (cols ! j) q vault = Inr (PStr s)
                                           \<and> rows ! i ! j = replace_pipe s"
      by auto
    from render_md_table_holds_row [OF i, of cols] out obtain pre post
      where "out = pre @ render_row (rows ! i) @ post" by auto
    with len cells show ?thesis by blast
  qed
  have lst: "\<exists>t rel pre post. value_for_column Y S text ''title'' q vault = Inr t
                 \<and> relative_to q vault = Inr rel
                 \<and> out = pre @ (''- ['' @ py_str S (if py_truthy t then t else PStr (stem q)) @ '']('' @ path_str rel @ '')'')
                         @ post"
    if kind: "\<not> prefix ''TABLE'' (upper (strip l0))"
  proof -
    from res lines kind src obtain items
      where items: "map_err (list_item Y S fs vault) ?files = Inr items"
        and out: "out = render_md_list items"
      by (auto simp: process_block_def Let_def split: sum.splits if_splits)
    from map_err_has_row [OF items q_in] obtain i where i: "i < length items"
      and item: "list_item Y S fs vault q = Inr (items ! i)" by blast
    from item rdq obtain t rel where t: "value_for_column Y S text ''title'' q vault = Inr t"
      and rel: "relative_to q vault = Inr rel"
      and it: "items ! i = ''['' @ py_str S (if py_truthy t then t else PStr (stem q)) @ '']('' @ path_str rel @ '')''"
      by (auto simp: list_item_def Let_def split: sum.splits)
    from render_md_list_holds_item [OF i] out obtain pre post
      where "out = pre @ (''- '' @ items ! i) @ post" by auto
    with it have "out = pre @ (''- ['' @ py_str S (if py_truthy t then t else PStr (stem q)) @ '']('' @ path_str rel @ '')'') @ post"
      by simp
    with t rel show ?thesis by blast
  qed
  from q_in cq rdq table lst show ?thesis by blast
qed

theorem scan_includes_own_document_witness:
  "wf_node vault_ab
   \<and> [''v'', ''q.md''] \<in> set (rglob_md vault_ab [''v''])
   \<and> read_file vault_ab [''v'', ''q.md''] = Inr ''```dataview\<newline>TABLE file.name, tags\<newline>```''
   \<and> Block ''```dataview'' ''\<newline>TABLE file.name, tags\<newline>'' \<in> set (find_blocks ''```dataview\<newline>TABLE file.name, tags\<newline>```'')
   \<and> splitlines (strip ''\<newline>TABLE file.name, tags\<newline>'') = [''TABLE file.name, tags'']
   \<and> canon vault_ab [] (gather_base vault_ab [''v''] (from_of_parts (re_split [''FROM''] False [] (strip ''TABLE file.name, tags'')))) = Some [''v'']
   \<and> canon vault_ab [] [''v'', ''q.md''] = Some [''v'', ''q.md'']
   \<and> strict_prefix [''v''] [''v'', ''q.md'']
   \<and> process_block yaml_stub str_stub vault_ab [''v''] [''v'', ''q.md''] ''```dataview'' ''\<newline>TABLE file.name, tags\<newline>'' = Inr ((''\<newline>| file.name | tags |\<newline>| --- | --- |\<newline>| q |  |\<newline>| n | a'' @ [bslash] @ ''|b |\<newline>''), True, [ConvertedTable None [''v'', ''q.md'']])
   \<and> (\<exists>q \<in> set (gather_files vault_ab [''v''] (from_of_parts (re_split [''FROM''] False [] (strip ''TABLE file.name, tags'')))).
           canon vault_ab [] q = Some [''v'', ''q.md''] \<and> read_file vault_ab q = Inr ''```dataview\<newline>TABLE file.name, tags\<newline>```''
         \<and> (prefix ''TABLE'' (upper (strip ''TABLE file.name, tags'')) \<longrightarrow>
              (\<exists>row pre post. length row = length (table_cols (re_split [''FROM''] False [] (strip ''TABLE file.name, tags'')))
                 \<and> (\<forall>j < length (table_cols (re_split [''FROM''] False [] (strip ''TABLE file.name, tags''))). \<exists>s. value_for_column yaml_stub str_stub ''```dataview\<newline>TABLE file.name, tags\<newline>```'' ((table_cols (re_split [''FROM''] False [] (strip ''TABLE file.name, tags''))) ! j) q [''v''] = Inr (PStr s)
                                           \<and> row ! j = replace_pipe s)
                 \<and> (''\<newline>| file.name | tags |\<newline>| --- | --- |\<newline>| q |  |\<newline>| n | a'' @ [bslash] @ ''|b |\<newline>'') = pre @ render_row row @ post))
         \<and> (\<not> prefix ''TABLE'' (upper (strip ''TABLE file.name, tags'')) \<longrightarrow>
              (\<exists>t rel pre post. value_for_column yaml_stub str_stub ''```dataview\<newline>TABLE file.name, tags\<newline>```'' ''title'' q [''v''] = Inr t
                 \<and> relative_to q [''v''] = Inr rel
                 \<and> (''\<newline>| file.name | tags |\<newline>| --- | --- |\<newline>| q |  |\<newline>| n | a'' @ [bslash] @ ''|b |\<newline>'') = pre @ (''- ['' @ py_str str_stub (if py_truthy t then t else PStr (stem q)) @ '']('' @ path_str rel @ '')'')
                         @ post)))
   \<and> wf_node vault_notes
   \<and> [''v'', ''notes'', ''d.md''] \<in> set (rglob_md vault_notes [''v''])
   \<and> read_file vault_notes [''v'', ''notes'', ''d.md''] = Inr ''```dataview LIST FROM notes```''
   \<and> Block ''```dataview'' '' LIST FROM notes'' \<in> set (find_blocks ''```dataview LIST FROM notes```'')
   \<and> splitlines (strip '' LIST FROM notes'') = [''LIST FROM notes'']
   \<and> canon vault_notes [] (gather_base vault_notes [''v''] (from_of_parts (re_split [''FROM''] False [] (strip ''LIST FROM notes'')))) = Some [''v'', ''notes'']
   \<and> canon vault_notes [] [''v'', ''notes'', ''d.md''] = Some [''v'', ''notes'', ''d.md'']
   \<and> strict_prefix [''v'', ''notes''] [''v'', ''notes'', ''d.md'']
   \<and> process_block yaml_stub str_stub vault_notes [''v''] [''v'', ''notes'', ''d.md''] ''```dataview'' '' LIST FROM notes'' = Inr (''\<newline>- [d](notes/d.md)\<newline>'', True, [ConvertedList (Some ''notes'') [''v'', ''notes'', ''d.md'']])
   \<and> (\<exists>q \<in> set (gather_files vault_notes [''v''] (from_of_parts (re_split [''FROM''] False [] (strip ''LIST FROM notes'')))).
           canon vault_notes [] q = Some [''v'', ''notes'', ''d.md''] \<and> read_file vault_notes q = Inr ''```dataview LIST FROM notes```''
         \<and> (prefix ''TABLE'' (upper (strip ''LIST FROM notes'')) \<longrightarrow>
              (\<exists>row pre post. length row = length (table_cols (re_split [''FROM''] False [] (strip ''LIST FROM notes'')))
                 \<and> (\<forall>j < length (table_cols (re_split [''FROM''] False [] (strip ''LIST FROM notes''))). \<exists>s. value_for_column yaml_stub str_stub ''```dataview LIST FROM notes```'' ((table_cols (re_split [''FROM''] False [] (strip ''LIST FROM notes''))) ! j) q [''v''] = Inr (PStr s)
                                           \<and> row ! j = replace_pipe s)
                 \<and> ''\<newline>- [d](notes/d.md)\<newline>'' = pre @ render_row row @ post))
         \<and> (\<not> prefix ''TABLE'' (upper (strip ''LIST FROM notes'')) \<longrightarrow>
              (\<exists>t rel pre post. value_for_column yaml_stub str_stub ''```dataview LIST FROM notes```'' ''title'' q [''v''] = Inr t
                 \<and> relative_to q [''v''] = Inr rel
                 \<and> ''\<newline>- [d](notes/d.md)\<newline>'' = pre @ (''- ['' @ py_str str_stub (if py_truthy t then t else PStr (stem q)) @ '']('' @ path_str rel @ '')'')
                         @ post)))"
proof -
  have wf_a: "wf_node vault_ab"
    by (simp add: vault_ab_def)
  have doc_a: "[''v'', ''q.md''] \<in> set (rglob_md vault_ab [''v''])"
    by code_simp
  have rd_a: "read_file vault_ab [''v'', ''q.md''] = Inr ''```dataview\<newline>TABLE file.name, tags\<newline>```''"
    by code_simp
  have blk_a: "Block ''```dataview'' ''\<newline>TABLE file.name, tags\<newline>'' \<in> set (find_blocks ''```dataview\<newline>TABLE file.name, tags\<newline>```'')"
    by code_simp
  have lines_a: "splitlines (strip ''\<newline>TABLE file.name, tags\<newline>'') = [''TABLE file.name, tags'']"
    by code_simp
  have base_a: "canon vault_ab [] (gather_base vault_ab [''v''] (from_of_parts (re_split [''FROM''] False [] (strip ''TABLE file.name, tags'')))) = Some [''v'']"
    by code_simp
  have own_a: "canon vault_ab [] [''v'', ''q.md''] = Some [''v'', ''q.md'']"
    by code_simp
  have anc_a: "strict_prefix [''v''] [''v'', ''q.md'']"
    by simp
  have res_a: "process_block yaml_stub str_stub vault_ab [''v''] [''v'', ''q.md''] ''```dataview'' ''\<newline>TABLE file.name, tags\<newline>'' = Inr ((''\<newline>| file.name | tags |\<newline>| --- | --- |\<newline>| q |  |\<newline>| n | a'' @ [bslash] @ ''|b |\<newline>''), True, [ConvertedTable None [''v'', ''q.md'']])"
    by code_simp
  note concl_a = scan_includes_own_document [OF wf_a doc_a rd_a blk_a lines_a refl refl base_a own_a anc_a res_a]
  have wf_b: "wf_node vault_notes"
    by (simp add: vault_notes_def)
  have doc_b: "[''v'', ''notes'', ''d.md''] \<in> set (rglob_md vault_notes [''v''])"
    by code_simp
  have rd_b: "read_file vault_notes [''v'', ''notes'', ''d.md''] = Inr ''```dataview LIST FROM notes```''"
    by code_simp
  have blk_b: "Block ''```dataview'' '' LIST FROM notes'' \<in> set (find_blocks ''```dataview LIST FROM notes```'')"
    by code_simp
  have lines_b: "splitlines (strip '' LIST FROM notes'') = [''LIST FROM notes'']"
    by code_simp
  have base_b: "canon vault_notes [] (gather_base vault_notes [''v''] (from_of_parts (re_split [''FROM''] False [] (strip ''LIST FROM notes'')))) = Some [''v'', ''notes'']"
    by code_simp
  have own_b: "canon vault_notes [] [''v'', ''notes'', ''d.md''] = Some [''v'', ''notes'', ''d.md'']"
    by code_simp
  have anc_b: "strict_prefix [''v'', ''notes''] [''v'', ''notes'', ''d.md'']"
    by simp
  have res_b: "process_block yaml_stub str_stub vault_notes [''v''] [''v'', ''notes'', ''d.md''] ''```dataview'' '' LIST FROM notes'' = Inr (''\<newline>- [d](notes/d.md)\<newline>'', True, [ConvertedList (Some ''notes'') [''v'', ''notes'', ''d.md'']])"
    by code_simp
  note concl_b = scan_includes_own_document [OF wf_b doc_b rd_b blk_b lines_b refl refl base_b own_b anc_b res_b]
  show ?thesis
    by (intro conjI wf_a doc_a rd_a blk_a lines_a base_a own_a anc_a res_a concl_a
                    wf_b doc_b rd_b blk_b lines_b base_b own_b anc_b res_b concl_b)
qed

subsection \<open>Scanning a text for blocks\<close>

lemma split_first_Some:
  "split_first sep s = Some (a, b) \<Longrightarrow> s = a @ sep @ b"
proof (induction s arbitrary: a)
  case Nil
  then show ?case by simp
next
  case (Cons c cs)
  show ?case
  proof (cases "prefix sep (c # cs)")
    case True
    with Cons.prems show ?thesis
      by (auto simp: prefix_def)
  next
    case False
    with Cons.prems obtain a' where "split_first sep cs = Some (a', b)" and "a = c # a'"
      by (auto split: option.splits)
    with Cons.IH [of a'] show ?thesis by simp
  qed
qed

lemma split_first_stable:
  assumes "sep \<noteq> []" and "split_first sep s = Some (a, b)"
  shows "split_first sep (a @ sep @ b') = Some (a, b')"
  using assms(2)
proof (induction s arbitrary: a)
  case Nil
  then show ?case by simp
next
  case (Cons c cs)
  show ?case
  proof (cases "prefix sep (c # cs)")
    case True
    with Cons.prems have a: "a = []" by simp
    from assms(1) obtain x xs where sep: "sep = x # xs" by (cases sep) auto
    show ?thesis unfolding a sep by simp
  next
    case False
    with Cons.prems obtain a' where rest: "split_first sep cs = Some (a', b)" and a: "a = c # a'"
      by (auto split: option.splits)
    from split_first_Some [OF rest] have cs: "cs = a' @ sep @ b" .
    have "\<not> prefix sep (c # a' @ sep @ b')"
    proof
      assume "prefix sep (c # a' @ sep @ b')"
      then have "take (length sep) (c # a' @ sep @ b') = sep"
        by (auto simp: prefix_def)
      moreover have short: "take (length sep) (xs @ x) = take (length sep) xs" if "length sep \<le> length xs" for xs x :: string
        using that by simp
      have "take (length sep) (c # a' @ sep @ b') = take (length sep) (c # a' @ sep @ b)"
        using short [of "c # a' @ sep" b'] short [of "c # a' @ sep" b] by simp
      ultimately have "prefix sep (c # a' @ sep @ b)"
        by (metis take_is_prefix)
      with False cs show False by simp
    qed
    with Cons.IH [OF rest] a assms(1) show ?thesis
      by (cases "a' @ sep @ b'") auto
  qed
qed

lemma split_first_None_drop:
  "split_first sep s = None \<Longrightarrow> split_first sep (drop k s) = None"
proof (induction s arbitrary: k)
  case Nil
  then show ?case by simp
next
  case (Cons c cs)
  from Cons.prems have rest: "split_first sep cs = None"
    by (auto split: if_splits option.splits)
  show ?case
  proof (cases k)
    case 0
    with Cons.prems show ?thesis by simp
  next
    case (Suc j)
    with Cons.IH [OF rest, of j] show ?thesis by simp
  qed
qed

lemma find_blocks_Block:
  assumes "upper (take 11 (c # cs)) = ''```DATAVIEW''" and "split_first fence (drop 10 cs) = Some (body, rest)"
  shows "find_blocks (c # cs) = Block (take 11 (c # cs)) body # find_blocks rest"
  using assms by simp

lemma find_blocks_Gap:
  assumes "\<not> (upper (take 11 (c # cs)) = ''```DATAVIEW'' \<and> split_first fence (drop 10 cs) \<noteq> None)"
  shows "find_blocks (c # cs) = Gap c # find_blocks cs"
  using assms by (auto split: option.splits)

lemma find_blocks_all_gaps:
  "split_first fence (drop 10 t) = None \<Longrightarrow> find_blocks t = map Gap t"
proof (induction t)
  case Nil
  then show ?case by simp
next
  case (Cons c cs)
  from split_first_None_drop [OF Cons.prems, of 1] have none: "split_first fence (drop 10 cs) = None"
    by simp
  show ?case
    using none Cons.IH Cons.prems find_blocks_Gap [of c cs]
    by (cases cs) (auto simp del: find_blocks.simps)
qed

lemma sub_segs_gaps: "sub_segs Y S fs vault fp (map Gap t) = Inr (t, False, [])"
  by (induction t) auto

lemma sub_segs_gaps_append:
  "sub_segs Y S fs vault fp (map Gap r @ segs) =
     (case sub_segs Y S fs vault fp segs of Inl e \<Rightarrow> Inl e | Inr (t, ch, l) \<Rightarrow> Inr (r @ t, ch, l))"
  by (induction r) (auto split: sum.splits)

lemma upper_nl: "nl \<in> set s \<Longrightarrow> nl \<in> set (upper s)"
proof -
  have "to_upper nl = nl" by (simp add: to_upper_def nl_def)
  then show "nl \<in> set s \<Longrightarrow> nl \<in> set (upper s)"
    unfolding upper_def by force
qed

lemma marker_no_nl: "upper s = ''```DATAVIEW'' \<Longrightarrow> nl \<notin> set s"
  using upper_nl [of s] by (auto simp: nl_def)

lemma rendering_shape:
  assumes "process_block Y S fs vault fp opn body = Inr (r, True, l)"
  shows "r \<noteq> [] \<and> hd r = nl \<and> last r = nl"
  using assms
  by (auto simp: process_block_def Let_def render_md_table_def render_md_list_def nl_def
           split: list.splits if_splits sum.splits)

lemma verbatim_stable:
  assumes "process_block Y S fs vault fp opn body = Inr (r, False, l)"
    and "process_block Y' S' fs' vault' fp' opn body = Inr (r', ch', l')"
  shows "r' = opn @ body @ fence \<and> \<not> ch'"
  using assms
  by (auto simp: process_block_def Let_def split: list.splits if_splits sum.splits)

lemma take_append_short: "n \<le> length xs \<Longrightarrow> take n (xs @ ys) = take n xs"
  by simp

lemma set_take_append_long: "length xs \<le> n \<Longrightarrow> set xs \<subseteq> set (take n (xs @ ys))"
  by simp

lemma find_blocks_plain_prefix:
  assumes "\<not> has_marker r" and "r = [] \<or> last r = nl"
  shows "find_blocks (r @ x) = map Gap r @ find_blocks x"
  using assms
proof (induction r)
  case Nil
  then show ?case by simp
next
  case (Cons c r)
  have no_open: "upper (take 11 ((c # r) @ x)) \<noteq> ''```DATAVIEW''"
  proof
    assume mk: "upper (take 11 ((c # r) @ x)) = ''```DATAVIEW''"
    show False
    proof (cases "11 \<le> length (c # r)")
      case True
      from mk have "upper (take 11 (c # r)) = ''```DATAVIEW''"
        unfolding take_append_short [OF True] .
      then have "has_marker (c # r)"
        unfolding has_marker_def by (intro bexI [of _ "c # r"]) (simp_all add: suffixes.simps)
      with Cons.prems(1) show False by simp
    next
      case False
      then have "set (c # r) \<subseteq> set (take 11 ((c # r) @ x))"
        by (intro set_take_append_long) simp
      moreover from Cons.prems(2) have "nl \<in> set (c # r)"
        by (metis last_in_set list.distinct(1))
      ultimately have "nl \<in> set (take 11 ((c # r) @ x))" by blast
      with marker_no_nl [OF mk] show False by simp
    qed
  qed
  have "\<not> has_marker r"
    using Cons.prems(1) unfolding has_marker_def by (auto simp: suffixes.simps)
  moreover have "r = [] \<or> last r = nl"
    using Cons.prems(2) by (cases r) auto
  ultimately have "find_blocks (r @ x) = map Gap r @ find_blocks x"
    by (rule Cons.IH)
  with no_open show ?case
    using find_blocks_Gap [of c "r @ x"] by (simp del: find_blocks.simps)
qed

lemma find_blocks_cases:
  obtains
    (Gap) "\<not> (upper (take 11 (c # cs)) = ''```DATAVIEW'' \<and> split_first fence (drop 10 cs) \<noteq> None)"
          "find_blocks (c # cs) = Gap c # find_blocks cs"
  | (Block) body rest where
          "upper (take 11 (c # cs)) = ''```DATAVIEW''"
          "split_first fence (drop 10 cs) = Some (body, rest)"
          "find_blocks (c # cs) = Block (take 11 (c # cs)) body # find_blocks rest"
          "c # cs = take 11 (c # cs) @ body @ fence @ rest"
          "length rest < length (c # cs)"
proof (cases "upper (take 11 (c # cs)) = ''```DATAVIEW'' \<and> split_first fence (drop 10 cs) \<noteq> None")
  case False
  with find_blocks_Gap [of c cs] Gap show ?thesis by blast
next
  case True
  then obtain body rest where mk: "upper (take 11 (c # cs)) = ''```DATAVIEW''"
    and sf: "split_first fence (drop 10 cs) = Some (body, rest)"
    by auto
  from split_first_Some [OF sf] have d: "drop 10 cs = body @ fence @ rest" .
  have "c # cs = take 11 (c # cs) @ drop 11 (c # cs)"
    by (simp only: append_take_drop_id)
  also have "drop 11 (c # cs) = body @ fence @ rest"
    using d by simp
  finally have whole: "c # cs = take 11 (c # cs) @ body @ fence @ rest" .
  have "length rest \<le> length (drop 10 cs)"
    unfolding d by simp
  then have "length rest < length (c # cs)" by simp
  with mk sf whole find_blocks_Block [OF mk sf] Block show ?thesis by blast
qed

lemma sub_segs_Gap_Inr:
  assumes "sub_segs Y S fs vault fp (Gap c # segs) = Inr (t, ch, l)"
  obtains t0 where "sub_segs Y S fs vault fp segs = Inr (t0, ch, l)" "t = c # t0"
  using assms by (auto split: sum.splits)

lemma sub_segs_Block_Inr:
  assumes "sub_segs Y S fs vault fp (Block opn body # segs) = Inr (t, ch, l)"
  obtains r ch1 l1 t0 ch0 l0 where
    "process_block Y S fs vault fp opn body = Inr (r, ch1, l1)"
    "sub_segs Y S fs vault fp segs = Inr (t0, ch0, l0)"
    "t = r @ t0" "ch = (ch1 \<or> ch0)" "l = l1 @ l0"
proof -
  from assms obtain x where x: "process_block Y S fs vault fp opn body = Inr x"
    by (auto split: sum.splits)
  obtain r ch1 l1 where xr: "x = (r, ch1, l1)" by (cases x)
  from assms x xr obtain y where y: "sub_segs Y S fs vault fp segs = Inr y"
    by (cases "sub_segs Y S fs vault fp segs") auto
  obtain t0 ch0 l0 where yr: "y = (t0, ch0, l0)" by (cases y)
  from assms x xr y yr that show ?thesis by simp
qed

lemma first_pass_prefix:
  assumes "sub_segs Y S fs vault fp (find_blocks t) = Inr (t', ch, l)" and "nl \<notin> set (take n t')"
  shows "take n t' = take n t"
  using assms
proof (induction t arbitrary: t' ch l n rule: length_induct)
  case (1 t)
  show ?case
  proof (cases t)
    case Nil
    with "1.prems" show ?thesis by simp
  next
    case (Cons c cs)
    show ?thesis
    proof (cases rule: find_blocks_cases [of c cs])
      case Gap
      from "1.prems"(1) obtain t0 where rest: "sub_segs Y S fs vault fp (find_blocks cs) = Inr (t0, ch, l)"
        and t': "t' = c # t0"
        unfolding Cons Gap(2) by (rule sub_segs_Gap_Inr)
      show ?thesis
      proof (cases n)
        case 0
        then show ?thesis by simp
      next
        case (Suc m)
        with "1.prems"(2) t' have "nl \<notin> set (take m t0)" by simp
        with "1.IH" rest Cons have "take m t0 = take m cs" by simp
        with Suc t' Cons show ?thesis by simp
      qed
    next
      case (Block body rest)
      let ?opn = "take 11 (c # cs)"
      from "1.prems"(1) obtain r ch1 l1 t0 ch0 l0 where
        pb: "process_block Y S fs vault fp ?opn body = Inr (r, ch1, l1)"
        and sub: "sub_segs Y S fs vault fp (find_blocks rest) = Inr (t0, ch0, l0)"
        and t': "t' = r @ t0"
        unfolding Cons Block(3) by (rule sub_segs_Block_Inr)
      show ?thesis
      proof (cases ch1)
        case True
        with pb have "process_block Y S fs vault fp ?opn body = Inr (r, True, l1)" by simp
        from rendering_shape [OF this] have r: "r \<noteq> []" "hd r = nl" by simp_all
        show ?thesis
        proof (cases n)
          case 0
          then show ?thesis by simp
        next
          case (Suc m)
          from r obtain r' where "r = nl # r'" by (cases r) auto
          with Suc t' have "nl \<in> set (take n t')" by simp
          with "1.prems"(2) show ?thesis by simp
        qed
      next
        case False
        with process_block_flag [OF pb] have r: "r = ?opn @ body @ fence" by simp
        have "nl \<notin> set (take (n - length r) t0)"
          using "1.prems"(2) unfolding t' by simp
        with "1.IH" sub Block(5) Cons have "take (n - length r) t0 = take (n - length r) rest"
          by simp
        then have "take n (r @ t0) = take n (r @ rest)" by simp
        moreover have "t = r @ rest"
          unfolding Cons r using Block(4) by simp
        ultimately show ?thesis using t' by simp
      qed
    qed
  qed
qed

lemma marker_length:
  assumes "upper (take 11 (c # cs)) = ''```DATAVIEW''"
  shows "10 \<le> length cs"
proof -
  have "length (upper (take 11 (c # cs))) = 11"
    unfolding assms by simp
  then show ?thesis
    by (simp add: upper_def)
qed

lemma second_pass_segs:
  assumes "sub_segs Y S fs vault fp (find_blocks t) = Inr (t', ch, l)"
    and "\<forall>opn body r l'. Block opn body \<in> set (find_blocks t)
            \<and> process_block Y S fs vault fp opn body = Inr (r, True, l') \<longrightarrow> \<not> has_marker r"
    and "sub_segs Y2 S2 fs2 vault2 fp2 (find_blocks t') = Inr (t'', ch2, l2)"
  shows "t'' = t' \<and> \<not> ch2"
  using assms
proof (induction t arbitrary: t' ch l t'' ch2 l2 rule: length_induct)
  case (1 t)
  show ?case
  proof (cases t)
    case Nil
    with "1.prems" show ?thesis by simp
  next
    case (Cons c cs)
    show ?thesis
    proof (cases rule: find_blocks_cases [of c cs])
      case Gap
      from "1.prems"(1) obtain t0 where rest: "sub_segs Y S fs vault fp (find_blocks cs) = Inr (t0, ch, l)"
        and t': "t' = c # t0"
        unfolding Cons Gap(2) by (rule sub_segs_Gap_Inr)
      have plain: "\<forall>opn body r l'. Block opn body \<in> set (find_blocks cs)
            \<and> process_block Y S fs vault fp opn body = Inr (r, True, l') \<longrightarrow> \<not> has_marker r"
        using "1.prems"(2) unfolding Cons Gap(2) by simp
      have no_match: "\<not> (upper (take 11 (c # t0)) = ''```DATAVIEW'' \<and> split_first fence (drop 10 t0) \<noteq> None)"
      proof
        assume m: "upper (take 11 (c # t0)) = ''```DATAVIEW'' \<and> split_first fence (drop 10 t0) \<noteq> None"
        then have mk: "upper (take 11 (c # t0)) = ''```DATAVIEW''" by simp
        from marker_no_nl [OF mk] have "nl \<notin> set (take 10 t0)" by simp
        from first_pass_prefix [OF rest this] have same: "take 10 t0 = take 10 cs" .
        have "take 11 (c # t0) = take 11 (c # cs)"
          using same by simp
        with mk have "upper (take 11 (c # cs)) = ''```DATAVIEW''" by simp
        with Gap(1) have "split_first fence (drop 10 cs) = None" by blast
        then have "find_blocks cs = map Gap cs" by (rule find_blocks_all_gaps)
        with rest have "t0 = cs" by (simp add: sub_segs_gaps)
        with \<open>split_first fence (drop 10 cs) = None\<close> m show False by simp
      qed
      then have scan: "find_blocks (c # t0) = Gap c # find_blocks t0"
        by (rule find_blocks_Gap)
      from "1.prems"(3) obtain t2 where rest2: "sub_segs Y2 S2 fs2 vault2 fp2 (find_blocks t0) = Inr (t2, ch2, l2)"
        and t'': "t'' = c # t2"
        unfolding t' scan by (rule sub_segs_Gap_Inr)
      have "length cs < length t" using Cons by simp
      with "1.IH" rest plain rest2 have "t2 = t0 \<and> \<not> ch2" by blast
      with t' t'' show ?thesis by simp
    next
      case (Block body rest)
      let ?opn = "take 11 (c # cs)"
      from "1.prems"(1) obtain r ch1 l1 t0 ch0 l0 where
        pb: "process_block Y S fs vault fp ?opn body = Inr (r, ch1, l1)"
        and sub: "sub_segs Y S fs vault fp (find_blocks rest) = Inr (t0, ch0, l0)"
        and t': "t' = r @ t0"
        unfolding Cons Block(3) by (rule sub_segs_Block_Inr)
      have plain: "\<forall>opn body r l'. Block opn body \<in> set (find_blocks rest)
            \<and> process_block Y S fs vault fp opn body = Inr (r, True, l') \<longrightarrow> \<not> has_marker r"
        using "1.prems"(2) unfolding Cons Block(3) by simp blast
      have shorter: "length rest < length t" using Cons Block(5) by simp
      show ?thesis
      proof (cases ch1)
        case True
        with pb have pbT: "process_block Y S fs vault fp ?opn body = Inr (r, True, l1)" by simp
        from rendering_shape [OF pbT] have "r = [] \<or> last r = nl" by simp
        moreover have "\<not> has_marker r"
          using "1.prems"(2) pbT unfolding Cons Block(3) by auto
        ultimately have scan: "find_blocks (r @ t0) = map Gap r @ find_blocks t0"
          by (intro find_blocks_plain_prefix)
        from "1.prems"(3) obtain t2 where rest2: "sub_segs Y2 S2 fs2 vault2 fp2 (find_blocks t0) = Inr (t2, ch2, l2)"
          and t'': "t'' = r @ t2"
          unfolding t' scan sub_segs_gaps_append by (auto split: sum.splits)
        from "1.IH" shorter sub plain rest2 have "t2 = t0 \<and> \<not> ch2" by blast
        with t' t'' show ?thesis by simp
      next
        case False
        with process_block_flag [OF pb] have r: "r = ?opn @ body @ fence" by simp
        from pb False have pbF: "process_block Y S fs vault fp ?opn body = Inr (r, False, l1)" by simp
        from marker_length [OF Block(1)] have len: "length (take 10 cs) = 10" by simp
        have opn: "?opn = c # take 10 cs" by simp
        let ?tail = "take 10 cs @ body @ fence @ t0"
        have t'c: "t' = c # ?tail"
          unfolding t' r by simp
        have head: "take 11 (c # ?tail) = ?opn"
          using len by simp
        have "fence \<noteq> []" by (simp add: fence_def)
        from split_first_stable [OF this Block(2)] have "split_first fence (body @ fence @ t0) = Some (body, t0)" .
        moreover have "drop 10 ?tail = body @ fence @ t0"
          using len by simp
        ultimately have close: "split_first fence (drop 10 ?tail) = Some (body, t0)" by simp
        have mk: "upper (take 11 (c # ?tail)) = ''```DATAVIEW''"
          unfolding head by (rule Block(1))
        have scan: "find_blocks (c # ?tail) = Block ?opn body # find_blocks t0"
          using find_blocks_Block [OF mk close] unfolding head .
        from "1.prems"(3) obtain r2 c2 m2 t2 c0 m0 where
          pb2: "process_block Y2 S2 fs2 vault2 fp2 ?opn body = Inr (r2, c2, m2)"
          and rest2: "sub_segs Y2 S2 fs2 vault2 fp2 (find_blocks t0) = Inr (t2, c0, m0)"
          and t'': "t'' = r2 @ t2" and ch2: "ch2 = (c2 \<or> c0)"
          unfolding t'c scan by (rule sub_segs_Block_Inr)
        from verbatim_stable [OF pbF pb2] have v: "r2 = ?opn @ body @ fence" "\<not> c2" by simp_all
        from "1.IH" shorter sub plain rest2 have "t2 = t0 \<and> \<not> c0" by blast
        with v t' t'' r ch2 show ?thesis by simp
      qed
    qed
  qed
qed

text \<open>
  C1, as stated: a second conversion of the same vault changes nothing. In the vault
  \<open>vault_fence\<close> the note \<^verbatim>\<open>n.md\<close> has the inline annotations
  \<^verbatim>\<open>title:: ```dataview LIST\<close> and \<^verbatim>\<open>a:: ```\<close>, and the table of \<^verbatim>\<open>q.md\<close> asks for
  the columns \<^verbatim>\<open>title, a\<close>. The first conversion writes the row
  \<^verbatim>\<open>| ```dataview LIST | ``` |\<close> into \<^verbatim>\<open>q.md\<close> and leaves \<^verbatim>\<open>n.md\<close> alone; the second
  conversion finds a LIST block in that row, substitutes it, sets the changed flag and
  rewrites \<^verbatim>\<open>q.md\<close>.
\<close>

theorem second_pass_changes_counterexample:
  "convert_dataview_in_vault yaml_stub str_stub vault_fence [''v''] False
     = Inr (vault_fence_once,
            [Found 2 [''v''], ConvertedTable None [''v'', ''q.md''], Updated [''v'', ''q.md'']])
   \<and> sub_blocks yaml_stub str_stub vault_fence_once [''v''] [''v'', ''q.md'']
        ''\<newline>| title | a |\<newline>| --- | --- |\<newline>| q |  |\<newline>| ```dataview LIST | ``` |\<newline>''
     = Inr (''\<newline>| title | a |\<newline>| --- | --- |\<newline>| q |  |\<newline>| \<newline>- [q](q.md)\<newline>- [```dataview LIST](n.md)\<newline> |\<newline>'', True,
            [ConvertedList None [''v'', ''q.md'']])
   \<and> convert_dataview_in_vault yaml_stub str_stub vault_fence_once [''v''] False
     = Inr (vault_fence_twice, [Found 2 [''v''], ConvertedList None [''v'', ''q.md''], Updated [''v'', ''q.md'']])
   \<and> vault_fence_twice \<noteq> vault_fence_once"
  by code_simp

text \<open>
  C1, amended. Let the blocks of a document be substituted without an exception, and let
  no replacement rendered for it hold the opening marker of a query block. Then the text
  produced is a fixed point of the block substitution, in any state of the file system:
  a second substitution that returns gives the same text and leaves the changed flag
  unset, and a conversion step on a file holding that text leaves the file system as it
  was.
\<close>

theorem second_pass_fixed_point:
  assumes first: "sub_blocks Y S fs vault fp text = Inr (new_text, changed, l)"
    and plain: "\<forall>opn body r l'. Block opn body \<in> set (find_blocks text)
                  \<and> process_block Y S fs vault fp opn body = Inr (r, True, l') \<longrightarrow> \<not> has_marker r"
  shows "(\<forall>t2 ch2 l2. sub_blocks Y2 S2 fs2 vault2 fp2 new_text = Inr (t2, ch2, l2) \<longrightarrow> t2 = new_text \<and> \<not> ch2)
       \<and> (\<forall>r. read_file fs2 fp2 = Inr new_text \<and> convert_file Y2 S2 vault2 backup fs2 fp2 = Inr r
              \<longrightarrow> fst r = fs2)"
proof -
  from first have one: "sub_segs Y S fs vault fp (find_blocks text) = Inr (new_text, changed, l)"
    by (simp add: sub_blocks_def)
  have fixed: "t2 = new_text \<and> \<not> ch2"
    if "sub_blocks Y2 S2 fs2 vault2 fp2 new_text = Inr (t2, ch2, l2)" for t2 ch2 l2
  proof -
    from that have "sub_segs Y2 S2 fs2 vault2 fp2 (find_blocks new_text) = Inr (t2, ch2, l2)"
      by (simp add: sub_blocks_def)
    from second_pass_segs [OF one plain this] show ?thesis .
  qed
  have kept: "fst r = fs2"
    if rd: "read_file fs2 fp2 = Inr new_text" and cf: "convert_file Y2 S2 vault2 backup fs2 fp2 = Inr r" for r
  proof -
    from cf rd obtain x where x: "sub_blocks Y2 S2 fs2 vault2 fp2 new_text = Inr x"
      by (auto simp: convert_file_def split: sum.splits)
    obtain t2 ch2 l2 where xr: "x = (t2, ch2, l2)" by (cases x)
    from fixed x xr have "\<not> ch2" by simp
    with cf rd x xr show ?thesis by (auto simp: convert_file_def)
  qed
  from fixed kept show ?thesis by blast
qed

theorem second_pass_fixed_point_witness:
  "sub_blocks yaml_stub str_stub vault_ab [''v''] [''v'', ''q.md''] ''```dataview\<newline>TABLE file.name, tags\<newline>```''
     = Inr (''\<newline>| file.name | tags |\<newline>| --- | --- |\<newline>| q |  |\<newline>| n | a'' @ [bslash] @ ''|b |\<newline>'', True,
            [ConvertedTable None [''v'', ''q.md'']])
   \<and> find_blocks ''```dataview\<newline>TABLE file.name, tags\<newline>```'' = [Block ''```dataview'' ''\<newline>TABLE file.name, tags\<newline>'']
   \<and> process_block yaml_stub str_stub vault_ab [''v''] [''v'', ''q.md''] ''```dataview'' ''\<newline>TABLE file.name, tags\<newline>''
     = Inr (''\<newline>| file.name | tags |\<newline>| --- | --- |\<newline>| q |  |\<newline>| n | a'' @ [bslash] @ ''|b |\<newline>'', True,
            [ConvertedTable None [''v'', ''q.md'']])
   \<and> \<not> has_marker (''\<newline>| file.name | tags |\<newline>| --- | --- |\<newline>| q |  |\<newline>| n | a'' @ [bslash] @ ''|b |\<newline>'')
   \<and> read_file vault_ab_once [''v'', ''q.md'']
     = Inr (''\<newline>| file.name | tags |\<newline>| --- | --- |\<newline>| q |  |\<newline>| n | a'' @ [bslash] @ ''|b |\<newline>'')
   \<and> convert_file yaml_stub str_stub [''v''] True vault_ab_once [''v'', ''q.md''] = Inr (vault_ab_once, [])
   \<and> fst (vault_ab_once, [] :: log list) = vault_ab_once"
proof -
  let ?text = "''```dataview\<newline>TABLE file.name, tags\<newline>```''"
  let ?new = "''\<newline>| file.name | tags |\<newline>| --- | --- |\<newline>| q |  |\<newline>| n | a'' @ [bslash] @ ''|b |\<newline>''"
  have first: "sub_blocks yaml_stub str_stub vault_ab [''v''] [''v'', ''q.md''] ?text
     = Inr (?new, True, [ConvertedTable None [''v'', ''q.md'']])"
    by code_simp
  have segs: "find_blocks ?text = [Block ''```dataview'' ''\<newline>TABLE file.name, tags\<newline>'']"
    by code_simp
  have pb: "process_block yaml_stub str_stub vault_ab [''v''] [''v'', ''q.md''] ''```dataview'' ''\<newline>TABLE file.name, tags\<newline>''
     = Inr (?new, True, [ConvertedTable None [''v'', ''q.md'']])"
    by code_simp
  have nm: "\<not> has_marker ?new"
    by code_simp
  have plain: "\<forall>opn body r l'. Block opn body \<in> set (find_blocks ?text)
                  \<and> process_block yaml_stub str_stub vault_ab [''v''] [''v'', ''q.md''] opn body = Inr (r, True, l')
                  \<longrightarrow> \<not> has_marker r"
    unfolding segs using pb nm by auto
  have rd: "read_file vault_ab_once [''v'', ''q.md''] = Inr ?new"
    by code_simp
  have cf: "convert_file yaml_stub str_stub [''v''] True vault_ab_once [''v'', ''q.md''] = Inr (vault_ab_once, [])"
    by code_simp
  from second_pass_fixed_point [OF first plain, where ?fs2.0 = vault_ab_once and ?fp2.0 = "[''v'', ''q.md'']"
      and ?Y2.0 = yaml_stub and ?S2.0 = str_stub and ?vault2.0 = "[''v'']" and backup = True]
    rd cf
  have kept: "fst (vault_ab_once, [] :: log list) = vault_ab_once"
    by blast
  from first segs pb nm rd cf kept show ?thesis by blast
qed

end
